theory Spec2Isabelle
  imports Complex_Main "HOL-Library.Multiset"
begin

section \<open>Past Forward: the generation scheduler (src/App.tsx)\<close>

subsection \<open>Data model\<close>

text \<open>
  \<^verbatim>\<open>type ImageStatus = 'pending' | 'done' | 'error'\<close> and the interface
  \<^verbatim>\<open>GeneratedImage { status; url?; error? }\<close>. An optional field that is absent is
  \<open>None\<close>.
\<close>

datatype ImageStatus = Pending | Done | Error

record GeneratedImage =
  status :: ImageStatus
  url :: "string option"
  error :: "string option"

datatype AppState = Idle | ImageUploaded | Generating | ResultsShown

text \<open>
  The remote call \<^verbatim>\<open>generateDecadeImage(uploadedImage, prompt)\<close> lives in
  services/geminiService, outside the sources; it is a parameter \<open>generate\<close> of the
  model, a function of the call's arguments. Every call is taken to settle: its promise
  is fulfilled with a URL or rejected with a thrown value, which is an
  \<^verbatim>\<open>Error\<close> instance carrying a message or some other value (a thrown string,
  say), given here by its text.
\<close>

datatype thrown = ErrorInstance string | NonError string

datatype outcome = Resolved string | Rejected thrown

type_synonym generate_fn = "string \<Rightarrow> string \<Rightarrow> outcome"

text \<open>
  A worker of the pool (one of the async closures built by
  \<^verbatim>\<open>Array(concurrencyLimit).fill(null).map(async () => ...)\<close>): it stands at the head
  of its while loop, is suspended at \<^verbatim>\<open>await processDecade(decade)\<close>, has left the
  loop (its promise is fulfilled), or has thrown (its promise is rejected).
\<close>

datatype worker = AtLoop | Awaiting string | Finished | Failed thrown

text \<open>
  The component state of \<open>App\<close> that the scheduler touches, the queue and the workers
  of the running round, and ghost fields. \<open>calls\<close> logs every invocation of
  \<open>generate\<close> with its arguments, \<open>pool_calls\<close> those made by the workers of the
  round. \<open>inflight\<close> holds the workers' invocations that have not settled yet, each
  with the index of the worker that issued it; \<open>retrying\<close> holds the invocations of
  the single-item retry that have not settled yet, each with its label. \<open>reported\<close>
  logs the per-item states the round has published, in order.
\<close>

record session =
  uploadedImage :: "string option"
  generatedImages :: "string \<rightharpoonup> GeneratedImage"
  appState :: AppState
  decadesQueue :: "string list"
  workers :: "worker list"
  calls :: "(string \<times> string) list"
  inflight :: "(nat \<times> string) list"
  pool_calls :: "(string \<times> string) list"
  reported :: "(string \<times> GeneratedImage) list"
  retrying :: "(string \<times> string \<times> string) list"

definition DECADES :: "string list" where
  "DECADES = [''1950s'', ''1960s'', ''1970s'', ''1980s'', ''1990s'', ''2000s'']"

definition concurrencyLimit :: nat where
  "concurrencyLimit = 2"

text \<open>JavaScript truthiness of a string: the empty string is falsy.\<close>

definition truthy :: "string \<Rightarrow> bool" where
  "truthy str = (str \<noteq> [])"

text \<open>\<^verbatim>\<open>!uploadedImage\<close> for a value of type \<^verbatim>\<open>string | null\<close>.\<close>

definition no_upload :: "string option \<Rightarrow> bool" where
  "no_upload u = (case u of None \<Rightarrow> True | Some img \<Rightarrow> \<not> truthy img)"

definition prompt_for :: "string \<Rightarrow> string" where
  "prompt_for decade =
     ''Reimagine the person in this photo in the style of the '' @ decade @
     ''. This includes clothing, hairstyle, photo quality, and the overall aesthetic of that decade. The output must be a photorealistic image showing the person clearly.''"

text \<open>\<^verbatim>\<open>err instanceof Error ? err.message : "An unknown error occurred."\<close>\<close>

definition errorMessage :: "thrown \<Rightarrow> string" where
  "errorMessage err =
     (case err of ErrorInstance message \<Rightarrow> message | NonError v \<Rightarrow> ''An unknown error occurred.'')"

subsection \<open>State updates\<close>

text \<open>
  The three functional updaters handed to \<^verbatim>\<open>setGeneratedImages\<close>:
  \<^verbatim>\<open>prev => ({ ...prev, [decade]: { status: 'pending' } })\<close>, and likewise for
  \<^verbatim>\<open>{ status: 'done', url: resultUrl }\<close> and \<^verbatim>\<open>{ status: 'error', error: errorMessage }\<close>.
\<close>

definition set_pending :: "string \<Rightarrow> (string \<rightharpoonup> GeneratedImage) \<Rightarrow> (string \<rightharpoonup> GeneratedImage)" where
  "set_pending decade prev = prev(decade \<mapsto> \<lparr>status = Pending, url = None, error = None\<rparr>)"

definition set_done :: "string \<Rightarrow> string \<Rightarrow> (string \<rightharpoonup> GeneratedImage) \<Rightarrow> (string \<rightharpoonup> GeneratedImage)" where
  "set_done decade resultUrl prev = prev(decade \<mapsto> \<lparr>status = Done, url = Some resultUrl, error = None\<rparr>)"

definition set_error :: "string \<Rightarrow> string \<Rightarrow> (string \<rightharpoonup> GeneratedImage) \<Rightarrow> (string \<rightharpoonup> GeneratedImage)" where
  "set_error decade msg prev = prev(decade \<mapsto> \<lparr>status = Error, url = None, error = Some msg\<rparr>)"

text \<open>
  The part of \<^verbatim>\<open>processDecade\<close> (and of \<^verbatim>\<open>handleRegenerateDecade\<close>) that runs once
  the awaited call has settled: the rest of the \<^verbatim>\<open>try\<close> block, which either
  completes or leaves with the thrown value, and the \<^verbatim>\<open>catch\<close> handler.
\<close>

definition try_block :: "string \<Rightarrow> outcome \<Rightarrow> (string \<rightharpoonup> GeneratedImage) \<Rightarrow> thrown + (string \<rightharpoonup> GeneratedImage)" where
  "try_block decade out prev =
     (case out of
        Resolved resultUrl \<Rightarrow> Inr (set_done decade resultUrl prev)
      | Rejected err \<Rightarrow> Inl err)"

definition catch_block :: "string \<Rightarrow> thrown \<Rightarrow> (string \<rightharpoonup> GeneratedImage) \<Rightarrow> thrown + (string \<rightharpoonup> GeneratedImage)" where
  "catch_block decade err prev = Inr (set_error decade (errorMessage err) prev)"

definition processDecade_settled :: "string \<Rightarrow> outcome \<Rightarrow> (string \<rightharpoonup> GeneratedImage) \<Rightarrow> thrown + (string \<rightharpoonup> GeneratedImage)" where
  "processDecade_settled decade out prev =
     (case try_block decade out prev of
        Inr imgs \<Rightarrow> Inr imgs
      | Inl err \<Rightarrow> catch_block decade err prev)"

subsection \<open>Single-item retry: handleRegenerateDecade\<close>

text \<open>
  The synchronous part, up to the \<^verbatim>\<open>await\<close>: the guard
  \<^verbatim>\<open>if (!uploadedImage || generatedImages[decade]?.status === 'pending') return;\<close>,
  the update to pending and the invocation of \<open>generate\<close>. The result holds the
  arguments of the call issued, or \<open>None\<close> when the function returned at the guard.
\<close>

definition is_pending :: "(string \<rightharpoonup> GeneratedImage) \<Rightarrow> string \<Rightarrow> bool" where
  "is_pending imgs decade = (case imgs decade of None \<Rightarrow> False | Some g \<Rightarrow> status g = Pending)"

definition handleRegenerateDecade_begin :: "string \<Rightarrow> session \<Rightarrow> (string \<times> string) option \<times> session" where
  "handleRegenerateDecade_begin decade s =
     (case uploadedImage s of
        None \<Rightarrow> (None, s)
      | Some img \<Rightarrow>
          if \<not> truthy img \<or> is_pending (generatedImages s) decade then (None, s)
          else (Some (img, prompt_for decade),
                s\<lparr>generatedImages := set_pending decade (generatedImages s),
                  calls := calls s @ [(img, prompt_for decade)]\<rparr>))"

text \<open>The continuation after the call has settled with \<open>out\<close>.\<close>

definition handleRegenerateDecade_settled :: "string \<Rightarrow> outcome \<Rightarrow> session \<Rightarrow> thrown + session" where
  "handleRegenerateDecade_settled decade out s =
     (case processDecade_settled decade out (generatedImages s) of
        Inr imgs \<Rightarrow> Inr (s\<lparr>generatedImages := imgs\<rparr>)
      | Inl err \<Rightarrow> Inl err)"

text \<open>
  The whole retry when nothing else runs in between; the outcome of the call is what
  \<open>generate\<close> gives for its arguments.
\<close>

definition handleRegenerateDecade :: "generate_fn \<Rightarrow> string \<Rightarrow> session \<Rightarrow> thrown + session" where
  "handleRegenerateDecade generate decade s =
     (case handleRegenerateDecade_begin decade s of
        (None, s') \<Rightarrow> Inr s'
      | (Some (img, prompt), s') \<Rightarrow> handleRegenerateDecade_settled decade (generate img prompt) s')"

subsection \<open>A generation round: handleGenerateClick\<close>

text \<open>
  The list of labels is the constant \<open>DECADES\<close> in the source; the model takes it as
  the parameter \<open>decades\<close>. The synchronous head of the function: the guard
  \<^verbatim>\<open>if (!uploadedImage) return;\<close>, the state changes, the queue and the pool. The
  ghost logs start empty.
\<close>

definition initialImages :: "string list \<Rightarrow> (string \<rightharpoonup> GeneratedImage)" where
  "initialImages decades = fold set_pending decades Map.empty"

definition handleGenerateClick_begin :: "string list \<Rightarrow> session \<Rightarrow> session" where
  "handleGenerateClick_begin decades s =
     (if no_upload (uploadedImage s) then s
      else s\<lparr>appState := Generating,
             generatedImages := initialImages decades,
             decadesQueue := decades,
             workers := replicate concurrencyLimit AtLoop,
             calls := [],
             inflight := [],
             pool_calls := [],
             reported := []\<rparr>)"

text \<open>
  One worker, run from the head of its loop until it suspends or leaves the loop:
  \<^verbatim>\<open>while (decadesQueue.length > 0) { const decade = decadesQueue.shift();
  if (decade) { await processDecade(decade); } }\<close>.
  The result is the label whose call the worker now awaits, if any, and the queue left.
\<close>

fun worker_loop :: "string list \<Rightarrow> string option \<times> string list" where
  "worker_loop [] = (None, [])"
| "worker_loop (decade # rest) = (if truthy decade then (Some decade, rest) else worker_loop rest)"

text \<open>
  \<open>img\<close> is the value of \<^verbatim>\<open>uploadedImage\<close> that the closures of the round captured.
  \<open>processDecade\<close> invokes \<open>generate\<close> before it suspends, so the call is logged and
  in flight as soon as the worker has drawn the label.
\<close>

definition resume :: "string \<Rightarrow> nat \<Rightarrow> session \<Rightarrow> session" where
  "resume img i s =
     (case worker_loop (decadesQueue s) of
        (None, rest) \<Rightarrow> s\<lparr>decadesQueue := rest, workers := (workers s)[i := Finished]\<rparr>
      | (Some decade, rest) \<Rightarrow>
          s\<lparr>decadesQueue := rest,
            workers := (workers s)[i := Awaiting decade],
            calls := calls s @ [(img, prompt_for decade)],
            inflight := inflight s @ [(i, decade)],
            pool_calls := pool_calls s @ [(img, prompt_for decade)]\<rparr>)"

text \<open>What a settled call leaves in the result map for its label.\<close>

definition published :: "outcome \<Rightarrow> GeneratedImage" where
  "published out =
     (case out of
        Resolved resultUrl \<Rightarrow> \<lparr>status = Done, url = Some resultUrl, error = None\<rparr>
      | Rejected err \<Rightarrow> \<lparr>status = Error, url = None, error = Some (errorMessage err)\<rparr>)"

text \<open>
  The call awaited by worker \<open>i\<close> settles: the rest of \<open>processDecade\<close> runs, and the
  worker is back at the head of its loop, or rejected had \<open>processDecade\<close> thrown.
\<close>

definition settle :: "generate_fn \<Rightarrow> string \<Rightarrow> nat \<Rightarrow> string \<Rightarrow> session \<Rightarrow> session" where
  "settle generate img i decade s =
     (case processDecade_settled decade (generate img (prompt_for decade)) (generatedImages s) of
        Inr imgs \<Rightarrow>
          s\<lparr>generatedImages := imgs,
            workers := (workers s)[i := AtLoop],
            inflight := remove1 (i, decade) (inflight s),
            reported := reported s @ [(decade, published (generate img (prompt_for decade)))]\<rparr>
      | Inl err \<Rightarrow>
          s\<lparr>workers := (workers s)[i := Failed err],
            inflight := remove1 (i, decade) (inflight s)\<rparr>)"

text \<open>
  The execution is single-threaded and cooperative: between two suspension points
  exactly one of the following happens. \<open>Resume i\<close>: worker \<open>i\<close> runs from the head of
  its loop. \<open>Settle i\<close>: the call that worker \<open>i\<close> awaits settles. \<open>Join\<close>: every
  worker's promise is fulfilled, \<^verbatim>\<open>await Promise.all(workers)\<close> returns and
  \<^verbatim>\<open>setAppState('results-shown')\<close> runs. \<open>Retry decade\<close>: the user asks to
  regenerate a label, which the cards allow while the round runs, and
  \<open>handleRegenerateDecade\<close> runs up to its \<^verbatim>\<open>await\<close>. \<open>RetrySettled k\<close>: the
  retry call at position \<open>k\<close> of \<open>retrying\<close> settles and the rest of
  \<open>handleRegenerateDecade\<close> runs. An event that cannot happen in a state gives
  \<open>None\<close>. JavaScript starts the workers in order, so its schedules begin with
  \<open>Resume 0, Resume 1\<close>; the model allows every order.
\<close>

datatype event = Resume nat | Settle nat | Join | Retry string | RetrySettled nat

fun step :: "generate_fn \<Rightarrow> string \<Rightarrow> event \<Rightarrow> session \<Rightarrow> session option" where
  "step generate img (Resume i) s =
     (if i < length (workers s) \<and> workers s ! i = AtLoop then Some (resume img i s) else None)"
| "step generate img (Settle i) s =
     (if i < length (workers s)
      then (case workers s ! i of
              Awaiting decade \<Rightarrow> Some (settle generate img i decade s)
            | _ \<Rightarrow> None)
      else None)"
| "step generate img Join s =
     (if list_all (\<lambda>w. w = Finished) (workers s) \<and> appState s = Generating
      then Some (s\<lparr>appState := ResultsShown\<rparr>)
      else None)"
| "step generate img (Retry decade) s =
     (case handleRegenerateDecade_begin decade s of
        (None, s') \<Rightarrow> Some s'
      | (Some call, s') \<Rightarrow> Some (s'\<lparr>retrying := retrying s' @ [(decade, call)]\<rparr>))"
| "step generate img (RetrySettled k) s =
     (if k < length (retrying s)
      then (case retrying s ! k of
              (decade, photo, prompt) \<Rightarrow>
                (case handleRegenerateDecade_settled decade (generate photo prompt) s of
                   Inr s' \<Rightarrow> Some (s'\<lparr>retrying := take k (retrying s) @ drop (Suc k) (retrying s)\<rparr>)
                 | Inl err \<Rightarrow> Some (s\<lparr>retrying := take k (retrying s) @ drop (Suc k) (retrying s)\<rparr>)))
      else None)"

text \<open>The events of the round's own workers and join.\<close>

fun pool_event :: "event \<Rightarrow> bool" where
  "pool_event (Retry decade) = False"
| "pool_event (RetrySettled k) = False"
| "pool_event e = True"

fun run :: "generate_fn \<Rightarrow> string \<Rightarrow> event list \<Rightarrow> session \<Rightarrow> session option" where
  "run generate img [] s = Some s"
| "run generate img (e # es) s =
     (case step generate img e s of None \<Rightarrow> None | Some s' \<Rightarrow> run generate img es s')"

text \<open>\<^verbatim>\<open>Promise.all(workers)\<close> rejects as soon as one worker's promise is rejected.\<close>

definition round_rejected :: "session \<Rightarrow> bool" where
  "round_rejected s = list_ex (\<lambda>w. case w of Failed err \<Rightarrow> True | _ \<Rightarrow> False) (workers s)"

text \<open>A session in which a photo has been uploaded and nothing has been generated.\<close>

definition uploaded_session :: "string \<Rightarrow> session" where
  "uploaded_session img =
     \<lparr>uploadedImage = Some img, generatedImages = Map.empty, appState = ImageUploaded,
      decadesQueue = [], workers = [], calls = [], inflight = [],
      pool_calls = [], reported = [], retrying = []\<rparr>"

text \<open>
  A schedule that runs a round over six labels to its end with no retry in between: the
  two workers take turns, each call settles before the worker asks for the next label,
  and the join comes last.
\<close>

definition full_round :: "event list" where
  "full_round =
     [Resume 0, Resume 1, Settle 0, Resume 0, Settle 1, Resume 1, Settle 0, Resume 0,
      Settle 1, Resume 1, Settle 0, Resume 0, Settle 1, Resume 1, Join]"

section \<open>Past Forward: the page compositor (src/lib/albumUtils.ts)\<close>

subsection \<open>The browser and the canvas\<close>

text \<open>
  What the function asks of the browser: whether \<^verbatim>\<open>canvas.getContext('2d')\<close> gives a
  context, whether the image at a source loads (\<^verbatim>\<open>onload\<close>) or not (\<^verbatim>\<open>onerror\<close>),
  when the load issued at a position of the list settles (a smaller number is earlier, equal
  numbers settle in list order), and the successive values of \<^verbatim>\<open>Math.random()\<close>.
  JavaScript numbers are modelled as reals: rounding is not part of the model.
\<close>

record browser =
  has_context :: bool
  decodes :: "string \<Rightarrow> bool"
  settles_at :: "nat \<Rightarrow> nat"
  math_random :: "nat \<Rightarrow> real"

text \<open>A JavaScript \<^verbatim>\<open>Error\<close> with its message, and a loaded \<^verbatim>\<open>HTMLImageElement\<close>
  with the source it was loaded from.\<close>

datatype js_error = JsError string

datatype image = Image string

text \<open>The calls and assignments on the 2D context, in the order they are made.\<close>

datatype ctx_op =
    SetFillStyle string
  | SetTextAlign string
  | SetFont string
  | SetShadowColor string
  | SetShadowBlur real
  | SetShadowOffsetX real
  | SetShadowOffsetY real
  | FillRect real real real real
  | FillText string real real
  | DrawImage image real real real real
  | Save
  | Restore
  | Translate real real
  | Rotate real

text \<open>
  What \<open>createAlbumPage\<close> does, in order: operations on the context, waits for a font,
  the start of an image load (\<^verbatim>\<open>img.src = src\<close>), its end (loaded or failed), and the
  encoding of the canvas.
\<close>

datatype effect =
    Canvas ctx_op
  | FontsLoad string
  | LoadStart string
  | LoadEnd string bool
  | ToDataURL string real

text \<open>
  The value of \<^verbatim>\<open>canvas.toDataURL(type, quality)\<close>: an encoding of the canvas, which is
  determined by the format, the quality, the size of the canvas and what was drawn on it.
\<close>

record data_url =
  mime :: string
  quality :: real
  width :: nat
  height :: nat
  painted :: "ctx_op list"

subsection \<open>loadImage and Promise.all\<close>

text \<open>
  \<^verbatim>\<open>img.onerror = (err) => reject(new Error(`Failed to load image: ${src.substring(0, 50)}...`))\<close>
\<close>

definition load_failure :: "string \<Rightarrow> js_error" where
  "load_failure src = JsError (''Failed to load image: '' @ take 50 src @ ''...'')"

definition loadImage :: "browser \<Rightarrow> string \<Rightarrow> js_error + image" where
  "loadImage env src = (if decodes env src then Inr (Image src) else Inl (load_failure src))"

text \<open>
  \<^verbatim>\<open>Promise.all\<close> over promises that settle in the order \<open>arrival\<close> (positions of the
  list): it rejects with the reason of the first promise to reject, and otherwise
  fulfils with the values in list order.
\<close>

fun first_rejection :: "(js_error + 'a) list \<Rightarrow> js_error option" where
  "first_rejection [] = None"
| "first_rejection (Inl err # ps) = Some err"
| "first_rejection (Inr v # ps) = first_rejection ps"

fun fulfilled_values :: "(js_error + 'a) list \<Rightarrow> 'a list" where
  "fulfilled_values [] = []"
| "fulfilled_values (Inr v # ps) = v # fulfilled_values ps"
| "fulfilled_values (Inl err # ps) = fulfilled_values ps"

definition promise_all :: "nat list \<Rightarrow> (js_error + 'a) list \<Rightarrow> js_error + 'a list" where
  "promise_all arrival ps =
     (case first_rejection (map (\<lambda>i. ps ! i) arrival) of
        Some err \<Rightarrow> Inl err
      | None \<Rightarrow> Inr (fulfilled_values ps))"

definition arrival_order :: "browser \<Rightarrow> nat \<Rightarrow> nat list" where
  "arrival_order env n = sort_key (settles_at env) [0..<n]"

text \<open>The load events up to the moment \<^verbatim>\<open>Promise.all\<close> settles.\<close>

fun load_ends :: "browser \<Rightarrow> string list \<Rightarrow> effect list" where
  "load_ends env [] = []"
| "load_ends env (src # rest) =
     (if decodes env src then LoadEnd src True # load_ends env rest else [LoadEnd src False])"

subsection \<open>createAlbumPage\<close>

definition canvasWidth :: nat where
  "canvasWidth = 2480"

definition canvasHeight :: nat where
  "canvasHeight = 3508"

text \<open>\<^verbatim>\<open>const grid = { cols: 2, rows: 3, padding: 100 }\<close>\<close>

definition grid_cols :: nat where
  "grid_cols = 2"

definition grid_rows :: nat where
  "grid_rows = 3"

definition grid_padding :: real where
  "grid_padding = 100"

definition contentTopMargin :: real where
  "contentTopMargin = 400"

definition contentHeight :: real where
  "contentHeight = real canvasHeight - contentTopMargin"

definition cellWidth :: real where
  "cellWidth = (real canvasWidth - grid_padding * (real grid_cols + 1)) / real grid_cols"

definition cellHeight :: real where
  "cellHeight = (contentHeight - grid_padding * (real grid_rows + 1)) / real grid_rows"

text \<open>\<^verbatim>\<open>(Math.random() - 0.5) * 0.07\<close>, for the value \<open>r\<close> that \<^verbatim>\<open>Math.random()\<close> gave.\<close>

definition rotation :: "real \<Rightarrow> real" where
  "rotation r = (r - 5 / 10) * (7 / 100)"

text \<open>The font strings contain single quotes.\<close>

definition title_font :: string where
  "title_font = ''600 150px '' @ [CHR 0x27] @ ''Poppins'' @ [CHR 0x27] @ '', sans-serif''"

definition caption_font :: string where
  "caption_font = ''500 80px '' @ [CHR 0x27] @ ''Inter'' @ [CHR 0x27] @ '', sans-serif''"

text \<open>Steps 1 and 2 of the source: the background, then the title once the fonts are there.\<close>

definition draw_background :: "ctx_op list" where
  "draw_background =
     [SetFillStyle ''#F8FAFC'',
      FillRect 0 0 (real canvasWidth) (real canvasHeight),
      SetFillStyle ''#0f172a'',
      SetTextAlign ''center'']"

definition draw_title :: "ctx_op list" where
  "draw_title =
     [SetFont title_font,
      FillText ''Past Forward'' (real canvasWidth / 2) 250]"

text \<open>
  The body of the \<^verbatim>\<open>forEach\<close> callback of step 4, for the entry at \<open>index\<close>; \<open>r\<close> is
  the value \<^verbatim>\<open>Math.random()\<close> gives in this call.
\<close>

definition draw_polaroid :: "real \<Rightarrow> nat \<Rightarrow> string \<Rightarrow> image \<Rightarrow> ctx_op list" where
  "draw_polaroid r index decade img =
     (let row = index div grid_cols;
          col = index mod grid_cols;
          cellX = grid_padding + real col * (cellWidth + grid_padding);
          cellY = contentTopMargin + grid_padding + real row * (cellHeight + grid_padding);
          polaroidWidth = cellWidth * (8 / 10);
          polaroidHeight = polaroidWidth * (12 / 10);
          imageMargin = polaroidWidth * (5 / 100);
          imageWidth = polaroidWidth - imageMargin * 2;
          imageHeight = imageWidth;
          imageX = - imageWidth / 2;
          imageY = - polaroidHeight / 2 + imageMargin;
          captionY = imageY + imageHeight + (polaroidHeight / 2 - imageMargin - imageHeight) / 2 + 30
      in [Save,
          Translate (cellX + cellWidth / 2) (cellY + cellHeight / 2),
          Rotate (rotation r),
          SetShadowColor ''rgba(40, 50, 70, 0.15)'',
          SetShadowBlur 60,
          SetShadowOffsetX 0,
          SetShadowOffsetY 15,
          SetFillStyle ''#FFFFFF'',
          FillRect (- polaroidWidth / 2) (- polaroidHeight / 2) polaroidWidth polaroidHeight,
          SetShadowColor ''transparent'',
          DrawImage img imageX imageY imageWidth imageHeight,
          SetFillStyle ''#1e293b'',
          SetFont caption_font,
          SetTextAlign ''center'',
          FillText decade 0 captionY,
          Restore])"

text \<open>
  \<^verbatim>\<open>imagesWithDecades.forEach(({ decade, img }, index) => ...)\<close>, from position
  \<open>index\<close> on.
\<close>

fun draw_polaroids :: "browser \<Rightarrow> nat \<Rightarrow> (string \<times> image) list \<Rightarrow> ctx_op list" where
  "draw_polaroids env index [] = []"
| "draw_polaroids env index ((decade, img) # rest) =
     draw_polaroid (math_random env index) index decade img @ draw_polaroids env (Suc index) rest"

text \<open>
  The argument \<open>imageData\<close> is the record in the order \<^verbatim>\<open>Object.keys\<close> and
  \<^verbatim>\<open>Object.values\<close> enumerate it. The result is the effects in order and the outcome
  of the promise. The waits \<^verbatim>\<open>document.fonts.load\<close> are taken to succeed.
\<close>

definition createAlbumPage :: "browser \<Rightarrow> (string \<times> string) list \<Rightarrow> effect list \<times> (js_error + data_url)" where
  "createAlbumPage env imageData =
     (if \<not> has_context env then ([], Inl (JsError ''Could not get 2D canvas context''))
      else
        let before_loading =
              map Canvas draw_background @
              [FontsLoad ''150px Poppins'', FontsLoad ''80px Inter''] @
              map Canvas draw_title;
            decades = map fst imageData;
            sources = map snd imageData;
            arrival = arrival_order env (length sources);
            loading = map LoadStart sources @ load_ends env (map (\<lambda>i. sources ! i) arrival)
        in case promise_all arrival (map (loadImage env) sources) of
             Inl err \<Rightarrow> (before_loading @ loading, Inl err)
           | Inr loadedImages \<Rightarrow>
               let imagesWithDecades = zip decades loadedImages;
                   polaroids = draw_polaroids env 0 imagesWithDecades
               in (before_loading @ loading @ map Canvas polaroids @ [ToDataURL ''image/jpeg'' (92 / 100)],
                   Inr \<lparr>mime = ''image/jpeg'', quality = 92 / 100,
                        width = canvasWidth, height = canvasHeight,
                        painted = draw_background @ draw_title @ polaroids\<rparr>))"

subsection \<open>Reading a page\<close>

text \<open>
  The coordinate frame of the context: where its origin lies on the canvas and by what
  angle it is turned. \<open>translate\<close> moves the origin along the turned axes, \<open>rotate\<close>
  turns the frame about its origin, \<open>save\<close> and \<open>restore\<close> push and pop the frame.
  \<open>placed_images\<close> lists, for every \<open>drawImage\<close> of a sequence of operations, the
  frame it is drawn in and the image.
\<close>

record frame =
  origin_x :: real
  origin_y :: real
  angle :: real

definition page_frame :: frame where
  "page_frame = \<lparr>origin_x = 0, origin_y = 0, angle = 0\<rparr>"

fun placed_images :: "frame \<Rightarrow> frame list \<Rightarrow> ctx_op list \<Rightarrow> (frame \<times> image) list" where
  "placed_images f stack [] = []"
| "placed_images f stack (Save # ops) = placed_images f (f # stack) ops"
| "placed_images f stack (Restore # ops) =
     (case stack of [] \<Rightarrow> placed_images f [] ops | g # gs \<Rightarrow> placed_images g gs ops)"
| "placed_images f stack (Translate dx dy # ops) =
     placed_images
       (f\<lparr>origin_x := origin_x f + dx * cos (angle f) - dy * sin (angle f),
          origin_y := origin_y f + dx * sin (angle f) + dy * cos (angle f)\<rparr>) stack ops"
| "placed_images f stack (Rotate a # ops) = placed_images (f\<lparr>angle := angle f + a\<rparr>) stack ops"
| "placed_images f stack (DrawImage img x y w h # ops) = (f, img) # placed_images f stack ops"
| "placed_images f stack (op # ops) = placed_images f stack ops"

text \<open>The texts written on a page, in order.\<close>

fun written_texts :: "ctx_op list \<Rightarrow> string list" where
  "written_texts [] = []"
| "written_texts (FillText txt x y # ops) = txt # written_texts ops"
| "written_texts (op # ops) = written_texts ops"

text \<open>
  The centre of the grid cell in a row and a column, as the layout describes it: cells
  of \<open>cellWidth\<close> by \<open>cellHeight\<close>, with \<open>grid_padding\<close> between and around them,
  below the top margin.
\<close>

definition cell_centre :: "nat \<Rightarrow> nat \<Rightarrow> real \<times> real" where
  "cell_centre row col =
     (grid_padding + real col * (cellWidth + grid_padding) + cellWidth / 2,
      contentTopMargin + grid_padding + real row * (cellHeight + grid_padding) + cellHeight / 2)"

text \<open>
  What ends up on the canvas. The drawing state of the context is its frame, the fill
  style, the font, the text alignment and the shadow; \<open>fresh_ctx\<close> is the state of a
  new context. \<open>render\<close> runs a sequence of operations from a state and a stack of
  saved states and lists the marks made, in order: every \<^verbatim>\<open>fillRect\<close>,
  \<^verbatim>\<open>drawImage\<close> and \<^verbatim>\<open>fillText\<close> with the state it is made in and its
  arguments.
\<close>

record shadow =
  colour :: string
  blur :: real
  offset_x :: real
  offset_y :: real

record ctx =
  place :: frame
  fill_style :: string
  font_face :: string
  align :: string
  shade :: shadow

definition fresh_ctx :: ctx where
  "fresh_ctx =
     \<lparr>place = page_frame, fill_style = ''#000000'', font_face = ''10px sans-serif'',
      align = ''start'',
      shade = \<lparr>colour = ''rgba(0, 0, 0, 0)'', blur = 0, offset_x = 0, offset_y = 0\<rparr>\<rparr>"

datatype mark =
    FilledRect frame string shadow real real real real
  | DrawnImage frame shadow image real real real real
  | WrittenText frame string string string shadow string real real

fun render :: "ctx \<Rightarrow> ctx list \<Rightarrow> ctx_op list \<Rightarrow> mark list" where
  "render c stack [] = []"
| "render c stack (SetFillStyle v # ops) = render (c\<lparr>fill_style := v\<rparr>) stack ops"
| "render c stack (SetTextAlign v # ops) = render (c\<lparr>align := v\<rparr>) stack ops"
| "render c stack (SetFont v # ops) = render (c\<lparr>font_face := v\<rparr>) stack ops"
| "render c stack (SetShadowColor v # ops) = render (c\<lparr>shade := (shade c)\<lparr>colour := v\<rparr>\<rparr>) stack ops"
| "render c stack (SetShadowBlur v # ops) = render (c\<lparr>shade := (shade c)\<lparr>blur := v\<rparr>\<rparr>) stack ops"
| "render c stack (SetShadowOffsetX v # ops) = render (c\<lparr>shade := (shade c)\<lparr>offset_x := v\<rparr>\<rparr>) stack ops"
| "render c stack (SetShadowOffsetY v # ops) = render (c\<lparr>shade := (shade c)\<lparr>offset_y := v\<rparr>\<rparr>) stack ops"
| "render c stack (FillRect x y w h # ops) =
     FilledRect (place c) (fill_style c) (shade c) x y w h # render c stack ops"
| "render c stack (FillText txt x y # ops) =
     WrittenText (place c) (fill_style c) (font_face c) (align c) (shade c) txt x y # render c stack ops"
| "render c stack (DrawImage img x y w h # ops) =
     DrawnImage (place c) (shade c) img x y w h # render c stack ops"
| "render c stack (Save # ops) = render c (c # stack) ops"
| "render c stack (Restore # ops) =
     (case stack of [] \<Rightarrow> render c [] ops | d # ds \<Rightarrow> render d ds ops)"
| "render c stack (Translate dx dy # ops) =
     render
       (c\<lparr>place := (place c)
            \<lparr>origin_x := origin_x (place c) + dx * cos (angle (place c)) - dy * sin (angle (place c)),
             origin_y := origin_y (place c) + dx * sin (angle (place c)) + dy * cos (angle (place c))\<rparr>\<rparr>)
       stack ops"
| "render c stack (Rotate a # ops) =
     render (c\<lparr>place := (place c)\<lparr>angle := angle (place c) + a\<rparr>\<rparr>) stack ops"

text \<open>
  The marks of the page's head: the background, a rectangle over the whole canvas, and
  the title.
\<close>

definition page_marks :: "mark list" where
  "page_marks =
     [FilledRect page_frame ''#F8FAFC''
        \<lparr>colour = ''rgba(0, 0, 0, 0)'', blur = 0, offset_x = 0, offset_y = 0\<rparr> 0 0 2480 3508,
      WrittenText page_frame ''#0f172a'' title_font ''center''
        \<lparr>colour = ''rgba(0, 0, 0, 0)'', blur = 0, offset_x = 0, offset_y = 0\<rparr>
        ''Past Forward'' 1240 250]"

text \<open>
  A rendered cell: the three marks of the polaroid at position \<open>i\<close>, all in the frame
  centred on the grid cell of row \<open>i div grid_cols\<close> and column \<open>i mod grid_cols\<close> and
  turned by \<open>turn\<close>. The white card is 872 wide (0.8 of the cell's width 1090) and
  1046.4 high, with the shadow; the image is a square of side 784.8, 43.6 inside the
  card's top and sides; the label is written centred at height 182.6. Image and label
  are drawn with the shadow's colour set to transparent.
\<close>

definition polaroid_marks :: "nat \<Rightarrow> real \<Rightarrow> string \<Rightarrow> image \<Rightarrow> mark list" where
  "polaroid_marks i turn label img =
     (let f = \<lparr>origin_x = fst (cell_centre (i div grid_cols) (i mod grid_cols)),
                origin_y = snd (cell_centre (i div grid_cols) (i mod grid_cols)),
                angle = turn\<rparr>
      in [FilledRect f ''#FFFFFF''
            \<lparr>colour = ''rgba(40, 50, 70, 0.15)'', blur = 60, offset_x = 0, offset_y = 15\<rparr>
            (- 436) (- (2616 / 5)) 872 (5232 / 5),
          DrawnImage f
            \<lparr>colour = ''transparent'', blur = 60, offset_x = 0, offset_y = 15\<rparr>
            img (- (1962 / 5)) (- (2398 / 5)) (3924 / 5) (3924 / 5),
          WrittenText f ''#1e293b'' caption_font ''center''
            \<lparr>colour = ''transparent'', blur = 60, offset_x = 0, offset_y = 15\<rparr>
            label 0 (913 / 5)])"

text \<open>
  Where a mark lies on the canvas: a point of a frame in canvas coordinates, the four
  corners of a rectangle or an image and the anchor of a text. A mark is on the canvas
  when all of these lie within the 2480 by 3508 canvas, and below it when all of them
  lie under its lower edge, so that nothing of the mark is in the encoded image. The
  blur of a shadow and the extent of a text around its anchor are not measured.
\<close>

definition canvas_point :: "frame \<Rightarrow> real \<Rightarrow> real \<Rightarrow> real \<times> real" where
  "canvas_point f x y =
     (origin_x f + x * cos (angle f) - y * sin (angle f),
      origin_y f + x * sin (angle f) + y * cos (angle f))"

fun mark_corners :: "mark \<Rightarrow> (real \<times> real) list" where
  "mark_corners (FilledRect f fs sh x y w h) =
     [canvas_point f x y, canvas_point f (x + w) y, canvas_point f x (y + h), canvas_point f (x + w) (y + h)]"
| "mark_corners (DrawnImage f sh img x y w h) =
     [canvas_point f x y, canvas_point f (x + w) y, canvas_point f x (y + h), canvas_point f (x + w) (y + h)]"
| "mark_corners (WrittenText f fs ff al sh txt x y) = [canvas_point f x y]"

definition inside_canvas :: "real \<times> real \<Rightarrow> bool" where
  "inside_canvas p \<longleftrightarrow>
     0 \<le> fst p \<and> fst p \<le> real canvasWidth \<and> 0 \<le> snd p \<and> snd p \<le> real canvasHeight"

definition on_canvas :: "mark \<Rightarrow> bool" where
  "on_canvas m = list_all inside_canvas (mark_corners m)"

definition below_canvas :: "mark \<Rightarrow> bool" where
  "below_canvas m = list_all (\<lambda>p. real canvasHeight < snd p) (mark_corners m)"

text \<open>Operations that put pixels on the canvas, and the events of an image load.\<close>

fun paints :: "effect \<Rightarrow> bool" where
  "paints (Canvas (FillRect x y w h)) = True"
| "paints (Canvas (FillText txt x y)) = True"
| "paints (Canvas (DrawImage img x y w h)) = True"
| "paints e = False"

fun is_load :: "effect \<Rightarrow> bool" where
  "is_load (LoadStart src) = True"
| "is_load (LoadEnd src ok) = True"
| "is_load e = False"

text \<open>No load event comes after an operation that paints.\<close>

fun loads_before_painting :: "effect list \<Rightarrow> bool" where
  "loads_before_painting [] = True"
| "loads_before_painting (e # es) =
     ((if paints e then list_all (\<lambda>e'. \<not> is_load e') es else True) \<and> loads_before_painting es)"

text \<open>
  The event that encodes the canvas.
\<close>

fun encodes :: "effect \<Rightarrow> bool" where
  "encodes (ToDataURL kind q) = True"
| "encodes e = False"

text \<open>
  A browser for the examples: it gives a context, loads every source that does not
  begin with \<open>broken\<close>, settles later loads first, and its random source always gives a quarter.
\<close>

definition demo_browser :: browser where
  "demo_browser =
     \<lparr>has_context = True, decodes = (\<lambda>src. take 6 src \<noteq> ''broken''), settles_at = (\<lambda>i. 10 - i),
      math_random = (\<lambda>n. 1 / 4)\<rparr>"

text \<open>
  A second browser, whose random source always gives a half, so that no polaroid is
  turned, and a mapping of nine labels to sources, in the order it enumerates them.
\<close>

definition level_browser :: browser where
  "level_browser =
     \<lparr>has_context = True, decodes = (\<lambda>src. True), settles_at = (\<lambda>i. i),
      math_random = (\<lambda>n. 1 / 2)\<rparr>"

definition nine_decades :: "(string \<times> string) list" where
  "nine_decades =
     [(''1920s'', ''img0''), (''1930s'', ''img1''), (''1940s'', ''img2''), (''1950s'', ''img3''),
      (''1960s'', ''img4''), (''1970s'', ''img5''), (''1980s'', ''img6''), (''1990s'', ''img7''),
      (''2000s'', ''img8'')]"

section \<open>Invariants of a round\<close>

text \<open>
  The state of the pool that every schedule keeps: the pool has \<open>concurrencyLimit\<close>
  workers, the unsettled calls are those of the suspended workers, one each, no worker
  has thrown, a worker leaves its loop only with the queue empty, and the round is
  reported as finished only when every worker is.
\<close>

definition pool_inv :: "session \<Rightarrow> bool" where
  "pool_inv s \<longleftrightarrow>
     length (workers s) = concurrencyLimit \<and>
     distinct (map fst (inflight s)) \<and>
     (\<forall>c \<in> set (inflight s). fst c < length (workers s) \<and> workers s ! fst c = Awaiting (snd c)) \<and>
     \<not> round_rejected s \<and>
     (Finished \<in> set (workers s) \<longrightarrow> decadesQueue s = []) \<and>
     (appState s = ResultsShown \<longrightarrow> list_all (\<lambda>w. w = Finished) (workers s)) \<and>
     (\<forall>i d. i < length (workers s) \<and> workers s ! i = Awaiting d \<longrightarrow> (i, d) \<in> set (inflight s)) \<and>
     (appState s = Generating \<or> appState s = ResultsShown)"

text \<open>
  The calls the workers have issued so far and the calls still owed to the truthy labels
  of the queue make up one call for each truthy label of the round.
\<close>

definition call_of :: "string \<Rightarrow> string \<Rightarrow> string \<times> string" where
  "call_of img decade = (img, prompt_for decade)"

definition calls_inv :: "string \<Rightarrow> string list \<Rightarrow> session \<Rightarrow> bool" where
  "calls_inv img decades s \<longleftrightarrow>
     mset (pool_calls s) + mset (map (call_of img) (filter truthy (decadesQueue s)))
       = mset (map (call_of img) (filter truthy decades))"

text \<open>
  As long as no retry runs, a truthy label of the round is still queued, or awaited by a
  worker, or its entry in the result map is what its settled call published.
\<close>

definition states_inv :: "generate_fn \<Rightarrow> string \<Rightarrow> string list \<Rightarrow> session \<Rightarrow> bool" where
  "states_inv generate img decades s \<longleftrightarrow>
     (\<forall>l \<in> set decades. truthy l \<longrightarrow>
        l \<in> set (decadesQueue s) \<or> Awaiting l \<in> set (workers s) \<or>
        generatedImages s l = Some (published (generate img (prompt_for l))))"

text \<open>
  The same for the states the round has published, which no retry can take back: a truthy
  label of the round is still queued, or awaited by a worker, or the round has published
  for it what its settled call gives; and the round publishes nothing else for a label.
\<close>

definition reported_inv :: "generate_fn \<Rightarrow> string \<Rightarrow> string list \<Rightarrow> session \<Rightarrow> bool" where
  "reported_inv generate img decades s \<longleftrightarrow>
     (\<forall>l \<in> set decades. truthy l \<longrightarrow>
        l \<in> set (decadesQueue s) \<or> Awaiting l \<in> set (workers s) \<or>
        (l, published (generate img (prompt_for l))) \<in> set (reported s))"

definition reported_exact :: "generate_fn \<Rightarrow> string \<Rightarrow> session \<Rightarrow> bool" where
  "reported_exact generate img s \<longleftrightarrow>
     (\<forall>r \<in> set (reported s). snd r = published (generate img (prompt_for (fst r))))"

text \<open>
  A measure that every event of the pool decreases and no retry changes: three for a
  queued label, two for a suspended worker, one for a worker at its loop head, one for
  the pending join.
\<close>

fun weight :: "worker \<Rightarrow> nat" where
  "weight AtLoop = 1"
| "weight (Awaiting decade) = 2"
| "weight Finished = 0"
| "weight (Failed err) = 0"

definition remaining :: "session \<Rightarrow> nat" where
  "remaining s =
     3 * length (decadesQueue s) + sum_list (map weight (workers s)) +
     (if appState s = Generating then 1 else 0)"

text \<open>
  The events at which a call of the pool settles.
\<close>

fun settled :: "event \<Rightarrow> bool" where
  "settled (Settle i) = True"
| "settled e = False"

section \<open>Lemmas about the scheduler\<close>

lemma worker_loop_Some:
  "worker_loop q = (Some d, rest) \<Longrightarrow>
     truthy d \<and> filter truthy q = d # filter truthy rest \<and> length rest < length q \<and> set rest \<subseteq> set q"
  by (induction q) (auto split: if_splits)

lemma worker_loop_None:
  "worker_loop q = (None, rest) \<Longrightarrow> rest = [] \<and> filter truthy q = []"
  by (induction q) (auto split: if_splits)

lemma processDecade_settled_published:
  "processDecade_settled decade out prev = Inr (prev(decade \<mapsto> published out))"
  by (cases out)
     (simp_all add: processDecade_settled_def try_block_def catch_block_def published_def
        set_done_def set_error_def)

lemma settle_eq:
  "settle generate img i decade s =
     s\<lparr>generatedImages := (generatedImages s)(decade \<mapsto> published (generate img (prompt_for decade))),
       workers := (workers s)[i := AtLoop],
       inflight := remove1 (i, decade) (inflight s),
       reported := reported s @ [(decade, published (generate img (prompt_for decade)))]\<rparr>"
  by (simp add: settle_def processDecade_settled_published)

lemma not_rejected_iff: "\<not> round_rejected s \<longleftrightarrow> (\<forall>w \<in> set (workers s). \<forall>err. w \<noteq> Failed err)"
  by (auto simp: round_rejected_def list_ex_iff split: worker.splits)

lemma pool_inv_begin:
  "\<not> no_upload (uploadedImage s) \<Longrightarrow> pool_inv (handleGenerateClick_begin decades s)"
  by (simp add: pool_inv_def handleGenerateClick_begin_def not_rejected_iff concurrencyLimit_def)

lemma in_set_upd: "w \<in> set (ws[i := v]) \<Longrightarrow> w = v \<or> w \<in> set ws"
  using set_update_subset_insert[of ws i v] by auto

lemma pool_invI:
  assumes "length (workers s) = concurrencyLimit"
    and "distinct (map fst (inflight s))"
    and "\<And>c. c \<in> set (inflight s) \<Longrightarrow> fst c < length (workers s) \<and> workers s ! fst c = Awaiting (snd c)"
    and "\<And>w err. w \<in> set (workers s) \<Longrightarrow> w \<noteq> Failed err"
    and "Finished \<in> set (workers s) \<Longrightarrow> decadesQueue s = []"
    and "appState s = ResultsShown \<Longrightarrow> list_all (\<lambda>w. w = Finished) (workers s)"
    and "\<And>j d. j < length (workers s) \<Longrightarrow> workers s ! j = Awaiting d \<Longrightarrow> (j, d) \<in> set (inflight s)"
    and "appState s = Generating \<or> appState s = ResultsShown"
  shows "pool_inv s"
  unfolding pool_inv_def not_rejected_iff using assms by blast

lemma pool_invD:
  assumes "pool_inv s"
  shows "length (workers s) = concurrencyLimit"
    and "distinct (map fst (inflight s))"
    and "\<And>c. c \<in> set (inflight s) \<Longrightarrow> fst c < length (workers s) \<and> workers s ! fst c = Awaiting (snd c)"
    and "\<And>w err. w \<in> set (workers s) \<Longrightarrow> w \<noteq> Failed err"
    and "Finished \<in> set (workers s) \<Longrightarrow> decadesQueue s = []"
    and "appState s = ResultsShown \<Longrightarrow> list_all (\<lambda>w. w = Finished) (workers s)"
    and "\<And>j d. j < length (workers s) \<Longrightarrow> workers s ! j = Awaiting d \<Longrightarrow> (j, d) \<in> set (inflight s)"
    and "appState s = Generating \<or> appState s = ResultsShown"
  using assms unfolding pool_inv_def not_rejected_iff by blast+

lemma busy_not_all_finished:
  assumes "i < length ws" "ws ! i \<noteq> Finished"
  shows "\<not> list_all (\<lambda>w. w = Finished) ws"
  using assms nth_mem[of i ws] by (auto simp: list_all_iff)

lemma pool_inv_resume:
  assumes inv: "pool_inv s" and i: "i < length (workers s)" and at: "workers s ! i = AtLoop"
  shows "pool_inv (resume img i s)"
proof (cases "worker_loop (decadesQueue s)")
  case (Pair r rest)
  note D = pool_invD[OF inv]
  have notall: "\<not> list_all (\<lambda>w. w = Finished) (workers s)"
    using busy_not_all_finished[OF i] at by simp
  have others: "fst c \<noteq> i" if "c \<in> set (inflight s)" for c
    using D(3)[OF that] at by auto
  show ?thesis
  proof (cases r)
    case None
    with Pair have q: "rest = []" using worker_loop_None by blast
    have eq: "resume img i s = s\<lparr>decadesQueue := [], workers := (workers s)[i := Finished]\<rparr>"
      using Pair None q by (simp add: resume_def)
    show ?thesis
    proof (rule pool_invI)
      show "length (workers (resume img i s)) = concurrencyLimit" using D(1) by (simp add: eq)
      show "distinct (map fst (inflight (resume img i s)))" using D(2) by (simp add: eq)
      show "fst c < length (workers (resume img i s)) \<and> workers (resume img i s) ! fst c = Awaiting (snd c)"
        if "c \<in> set (inflight (resume img i s))" for c
        using that D(3)[of c] others[of c] by (simp add: eq)
      show "w \<noteq> Failed err" if "w \<in> set (workers (resume img i s))" for w err
        using that D(4)[of w err] by (auto simp: eq dest: in_set_upd)
      show "decadesQueue (resume img i s) = []" by (simp add: eq)
      show "list_all (\<lambda>w. w = Finished) (workers (resume img i s))"
        if "appState (resume img i s) = ResultsShown"
        using that D(6) notall by (simp add: eq)
      show "(j, d) \<in> set (inflight (resume img i s))"
        if "j < length (workers (resume img i s))" "workers (resume img i s) ! j = Awaiting d" for j d
        using that D(7)[of j d] by (cases "j = i") (simp_all add: eq)
      show "appState (resume img i s) = Generating \<or> appState (resume img i s) = ResultsShown"
        using D(8) by (simp add: eq)
    qed
  next
    case (Some d)
    have nofin: "Finished \<notin> set (workers s)"
    proof
      assume "Finished \<in> set (workers s)"
      then have "decadesQueue s = []" by (rule D(5))
      with Pair Some show False by simp
    qed
    have eq: "resume img i s = s\<lparr>decadesQueue := rest, workers := (workers s)[i := Awaiting d],
        calls := calls s @ [(img, prompt_for d)], inflight := inflight s @ [(i, d)],
          pool_calls := pool_calls s @ [(img, prompt_for d)]\<rparr>"
      using Pair Some by (simp add: resume_def)
    show ?thesis
    proof (rule pool_invI)
      show "length (workers (resume img i s)) = concurrencyLimit" using D(1) by (simp add: eq)
      show "distinct (map fst (inflight (resume img i s)))"
        using D(2) others by (auto simp: eq)
      show "fst c < length (workers (resume img i s)) \<and> workers (resume img i s) ! fst c = Awaiting (snd c)"
        if "c \<in> set (inflight (resume img i s))" for c
      proof (cases "c = (i, d)")
        case True
        then show ?thesis using i by (simp add: eq)
      next
        case False
        with that have "c \<in> set (inflight s)" by (simp add: eq)
        then show ?thesis using D(3)[of c] others[of c] by (simp add: eq)
      qed
      show "w \<noteq> Failed err" if "w \<in> set (workers (resume img i s))" for w err
        using that D(4)[of w err] by (auto simp: eq dest: in_set_upd)
      show "decadesQueue (resume img i s) = []" if "Finished \<in> set (workers (resume img i s))"
        using that nofin by (auto simp: eq dest: in_set_upd)
      show "list_all (\<lambda>w. w = Finished) (workers (resume img i s))"
        if "appState (resume img i s) = ResultsShown"
        using that D(6) notall by (simp add: eq)
      show "(j, d') \<in> set (inflight (resume img i s))"
        if "j < length (workers (resume img i s))" "workers (resume img i s) ! j = Awaiting d'" for j d'
        using that D(7)[of j d'] by (cases "j = i") (simp_all add: eq)
      show "appState (resume img i s) = Generating \<or> appState (resume img i s) = ResultsShown"
        using D(8) by (simp add: eq)
    qed
  qed
qed

lemma pool_inv_settle:
  assumes inv: "pool_inv s" and i: "i < length (workers s)" and aw: "workers s ! i = Awaiting d"
  shows "pool_inv (settle generate img i d s)"
proof -
  note D = pool_invD[OF inv]
  have notall: "\<not> list_all (\<lambda>w. w = Finished) (workers s)"
    using busy_not_all_finished[OF i] aw by simp
  have d1: "distinct (inflight s)" and inj: "inj_on fst (set (inflight s))"
    using D(2) by (simp_all add: distinct_map)
  have gone: "fst c \<noteq> i \<and> c \<in> set (inflight s)" if c: "c \<in> set (remove1 (i, d) (inflight s))" for c
  proof -
    from c d1 have cin: "c \<in> set (inflight s)" and ne: "c \<noteq> (i, d)" by auto
    have "workers s ! fst c = Awaiting (snd c)" using D(3)[OF cin] by simp
    with aw ne have "fst c \<noteq> i" by (cases c) auto
    with cin show ?thesis by simp
  qed
  let ?s' = "settle generate img i d s"
  show ?thesis
  proof (rule pool_invI)
    show "length (workers ?s') = concurrencyLimit" using D(1) by (simp add: settle_eq)
    show "distinct (map fst (inflight ?s'))"
      using d1 inj by (simp add: settle_eq distinct_map inj_on_def)
    show "fst c < length (workers ?s') \<and> workers ?s' ! fst c = Awaiting (snd c)"
      if "c \<in> set (inflight ?s')" for c
    proof -
      from that have "c \<in> set (remove1 (i, d) (inflight s))" by (simp add: settle_eq)
      from gone[OF this] D(3)[of c] show ?thesis by (simp add: settle_eq)
    qed
    show "w \<noteq> Failed err" if "w \<in> set (workers ?s')" for w err
      using that D(4)[of w err] by (auto simp: settle_eq dest: in_set_upd)
    show "decadesQueue ?s' = []" if "Finished \<in> set (workers ?s')"
      using that D(5) by (auto simp: settle_eq dest: in_set_upd)
    show "list_all (\<lambda>w. w = Finished) (workers ?s')" if "appState ?s' = ResultsShown"
      using that D(6) notall by (simp add: settle_eq)
    show "(j, d') \<in> set (inflight ?s')"
      if "j < length (workers ?s')" "workers ?s' ! j = Awaiting d'" for j d'
      using that D(7)[of j d'] by (cases "j = i") (simp_all add: settle_eq)
    show "appState ?s' = Generating \<or> appState ?s' = ResultsShown"
      using D(8) by (simp add: settle_eq)
  qed
qed

lemma pool_inv_join:
  assumes inv: "pool_inv s" and fin: "list_all (\<lambda>w. w = Finished) (workers s)"
  shows "pool_inv (s\<lparr>appState := ResultsShown\<rparr>)"
proof (rule pool_invI)
  note D = pool_invD[OF inv]
  show "length (workers (s\<lparr>appState := ResultsShown\<rparr>)) = concurrencyLimit" using D(1) by simp
  show "distinct (map fst (inflight (s\<lparr>appState := ResultsShown\<rparr>)))" using D(2) by simp
  show "fst c < length (workers (s\<lparr>appState := ResultsShown\<rparr>)) \<and>
        workers (s\<lparr>appState := ResultsShown\<rparr>) ! fst c = Awaiting (snd c)"
    if "c \<in> set (inflight (s\<lparr>appState := ResultsShown\<rparr>))" for c
    using that D(3)[of c] by simp
  show "w \<noteq> Failed err" if "w \<in> set (workers (s\<lparr>appState := ResultsShown\<rparr>))" for w err
    using that D(4)[of w err] by simp
  show "decadesQueue (s\<lparr>appState := ResultsShown\<rparr>) = []"
    if "Finished \<in> set (workers (s\<lparr>appState := ResultsShown\<rparr>))"
    using that D(5) by simp
  show "list_all (\<lambda>w. w = Finished) (workers (s\<lparr>appState := ResultsShown\<rparr>))" using fin by simp
  show "(j, d) \<in> set (inflight (s\<lparr>appState := ResultsShown\<rparr>))"
    if "j < length (workers (s\<lparr>appState := ResultsShown\<rparr>))"
       "workers (s\<lparr>appState := ResultsShown\<rparr>) ! j = Awaiting d" for j d
    using that D(7)[of j d] by simp
  show "appState (s\<lparr>appState := ResultsShown\<rparr>) = Generating \<or>
        appState (s\<lparr>appState := ResultsShown\<rparr>) = ResultsShown" by simp
qed

lemma retry_begin_frame:
  "workers (snd (handleRegenerateDecade_begin decade s)) = workers s \<and>
   inflight (snd (handleRegenerateDecade_begin decade s)) = inflight s \<and>
   decadesQueue (snd (handleRegenerateDecade_begin decade s)) = decadesQueue s \<and>
   appState (snd (handleRegenerateDecade_begin decade s)) = appState s \<and>
   pool_calls (snd (handleRegenerateDecade_begin decade s)) = pool_calls s \<and>
   reported (snd (handleRegenerateDecade_begin decade s)) = reported s"
  by (simp add: handleRegenerateDecade_begin_def split: option.splits)

lemma retry_settled_frame:
  "handleRegenerateDecade_settled decade out s = Inr s' \<Longrightarrow>
   workers s' = workers s \<and> inflight s' = inflight s \<and> decadesQueue s' = decadesQueue s \<and>
   appState s' = appState s \<and> pool_calls s' = pool_calls s \<and> reported s' = reported s"
  by (auto simp: handleRegenerateDecade_settled_def split: sum.splits)

lemma retry_step_frame:
  assumes "step generate img e s = Some s'" and "\<not> pool_event e"
  shows "workers s' = workers s \<and> inflight s' = inflight s \<and> decadesQueue s' = decadesQueue s \<and>
         appState s' = appState s \<and> pool_calls s' = pool_calls s \<and> reported s' = reported s"
proof (cases e)
  case (Retry decade)
  obtain c t where b: "handleRegenerateDecade_begin decade s = (c, t)"
    by (cases "handleRegenerateDecade_begin decade s")
  with retry_begin_frame[of decade s] have fr: "workers t = workers s \<and> inflight t = inflight s \<and>
      decadesQueue t = decadesQueue s \<and> appState t = appState s \<and> pool_calls t = pool_calls s \<and>
      reported t = reported s" by simp
  from assms(1) Retry b fr show ?thesis by (cases c) auto
next
  case (RetrySettled k)
  with assms(1) have k: "k < length (retrying s)" by (simp split: if_splits)
  obtain decade photo prompt where r: "retrying s ! k = (decade, photo, prompt)"
    by (cases "retrying s ! k")
  show ?thesis
  proof (cases "handleRegenerateDecade_settled decade (generate photo prompt) s")
    case (Inl err)
    with assms(1) RetrySettled k r show ?thesis by auto
  next
    case (Inr t)
    from retry_settled_frame[OF Inr] assms(1) RetrySettled k r Inr show ?thesis by auto
  qed
qed (use assms(2) in simp_all)

lemma step_cases:
  assumes "step generate img e s = Some s'"
  obtains (Resume) i where "e = Resume i" "i < length (workers s)" "workers s ! i = AtLoop"
      "s' = resume img i s"
    | (Settle) i d where "e = Settle i" "i < length (workers s)" "workers s ! i = Awaiting d"
      "s' = settle generate img i d s"
    | (Join) "e = Join" "list_all (\<lambda>w. w = Finished) (workers s)" "appState s = Generating"
      "s' = s\<lparr>appState := ResultsShown\<rparr>"
    | (Other) "\<not> pool_event e" "workers s' = workers s" "inflight s' = inflight s"
      "decadesQueue s' = decadesQueue s" "appState s' = appState s"
      "pool_calls s' = pool_calls s" "reported s' = reported s"
proof (cases "pool_event e")
  case True
  with assms show ?thesis
    by (cases e) (auto split: if_splits worker.splits intro: Resume Settle Join)
next
  case False
  with retry_step_frame[OF assms] show ?thesis by (intro Other) simp_all
qed

lemma pool_inv_step:
  assumes "step generate img e s = Some s'" "pool_inv s"
  shows "pool_inv s'"
  using assms(1)
proof (cases rule: step_cases)
  case (Resume i)
  then show ?thesis using assms(2) by (simp add: pool_inv_resume)
next
  case (Settle i d)
  then show ?thesis using assms(2) by (simp add: pool_inv_settle)
next
  case Join
  then show ?thesis using assms(2) by (simp add: pool_inv_join)
next
  case Other
  then have "pool_inv s' = pool_inv s" by (simp only: pool_inv_def round_rejected_def)
  with assms(2) show ?thesis by simp
qed

lemma distinct_fst_bound:
  assumes "distinct (map fst xs)" "\<forall>c \<in> set xs. fst c < (n::nat)"
  shows "length xs \<le> n"
proof -
  have "length xs = card (set (map fst xs))" using assms(1) by (metis distinct_card length_map)
  also have "\<dots> \<le> card {..<n}" using assms(2) by (intro card_mono) auto
  finally show ?thesis by simp
qed

lemma distinct_fst_once:
  "distinct (map fst xs) \<Longrightarrow> length (filter (\<lambda>c. fst c = i) xs) \<le> 1"
proof (induction xs)
  case Nil
  then show ?case by simp
next
  case (Cons x xs)
  have "filter (\<lambda>c. fst c = i) xs = []" if "fst x = i"
  proof -
    from Cons.prems that have "i \<notin> fst ` set xs" by simp
    then show ?thesis unfolding filter_empty_conv by blast
  qed
  with Cons show ?case by auto
qed

lemma calls_inv_begin:
  "\<not> no_upload (uploadedImage s) \<Longrightarrow> calls_inv img decades (handleGenerateClick_begin decades s)"
  by (simp add: calls_inv_def handleGenerateClick_begin_def)

lemma calls_inv_step:
  assumes "step generate img e s = Some s'" "calls_inv img decades s"
  shows "calls_inv img decades s'"
  using assms(1)
proof (cases rule: step_cases)
  case Other
  then show ?thesis using assms(2) by (simp add: calls_inv_def)
next
  case (Resume i)
  show ?thesis
  proof (cases "worker_loop (decadesQueue s)")
    case (Pair r rest)
    show ?thesis
    proof (cases r)
      case None
      with Pair have "rest = []" "filter truthy (decadesQueue s) = []"
        using worker_loop_None by blast+
      with Pair None Resume assms(2) show ?thesis
        by (simp add: calls_inv_def resume_def)
    next
      case (Some d)
      with Pair have "filter truthy (decadesQueue s) = d # filter truthy rest"
        using worker_loop_Some by blast
      with Pair Some Resume assms(2) show ?thesis
        by (simp add: calls_inv_def resume_def call_of_def)
    qed
  qed
next
  case (Settle i d)
  then show ?thesis using assms(2) by (simp add: calls_inv_def settle_eq)
next
  case Join
  then show ?thesis using assms(2) by (simp add: calls_inv_def)
qed

lemma states_inv_begin:
  "\<not> no_upload (uploadedImage s) \<Longrightarrow> states_inv generate img decades (handleGenerateClick_begin decades s)"
  by (simp add: states_inv_def handleGenerateClick_begin_def)

lemma keep_awaiting:
  assumes "Awaiting l \<in> set ws" "ws ! i \<noteq> Awaiting l"
  shows "Awaiting l \<in> set (ws[i := v])"
proof -
  from assms(1) obtain j where j: "j < length ws" "ws ! j = Awaiting l"
    by (auto simp: in_set_conv_nth)
  with assms(2) have "j \<noteq> i" by auto
  with j have "ws[i := v] ! j = Awaiting l" "j < length (ws[i := v])" by simp_all
  then show ?thesis by (metis nth_mem)
qed

lemma states_inv_step:
  assumes "step generate img e s = Some s'" "states_inv generate img decades s"
    and pool: "pool_event e"
  shows "states_inv generate img decades s'"
  using assms(1)
proof (cases rule: step_cases)
  case Other
  with pool show ?thesis by simp
next
  case (Resume i)
  show ?thesis
  proof (cases "worker_loop (decadesQueue s)")
    case (Pair r rest)
    show ?thesis
    proof (cases r)
      case None
      with Pair have q: "rest = []" "filter truthy (decadesQueue s) = []"
        using worker_loop_None by blast+
      have eq: "s' = s\<lparr>decadesQueue := [], workers := (workers s)[i := Finished]\<rparr>"
        using Pair None q Resume by (simp add: resume_def)
      show ?thesis unfolding states_inv_def
      proof (intro ballI impI)
        fix l assume l: "l \<in> set decades" "truthy l"
        from q(2) l(2) have "l \<notin> set (decadesQueue s)" by (auto simp: filter_empty_conv)
        with assms(2) l have "Awaiting l \<in> set (workers s) \<or>
            generatedImages s l = Some (published (generate img (prompt_for l)))"
          by (auto simp: states_inv_def)
        then show "l \<in> set (decadesQueue s') \<or> Awaiting l \<in> set (workers s') \<or>
            generatedImages s' l = Some (published (generate img (prompt_for l)))"
          using keep_awaiting[of l "workers s" i Finished] Resume(3) by (auto simp: eq)
      qed
    next
      case (Some d)
      with Pair have q: "filter truthy (decadesQueue s) = d # filter truthy rest"
        using worker_loop_Some by blast
      have eq: "s' = s\<lparr>decadesQueue := rest, workers := (workers s)[i := Awaiting d],
          calls := calls s @ [(img, prompt_for d)], inflight := inflight s @ [(i, d)],
          pool_calls := pool_calls s @ [(img, prompt_for d)]\<rparr>"
        using Pair Some Resume by (simp add: resume_def)
      show ?thesis unfolding states_inv_def
      proof (intro ballI impI)
        fix l assume l: "l \<in> set decades" "truthy l"
        have here: "Awaiting d \<in> set ((workers s)[i := Awaiting d])"
          using Resume(2) by (simp add: set_update_memI)
        have inq: "l = d \<or> l \<in> set rest" if "l \<in> set (decadesQueue s)"
        proof -
          from that l(2) have "l \<in> set (filter truthy (decadesQueue s))" by simp
          with q show ?thesis by auto
        qed
        from assms(2) l have "l \<in> set (decadesQueue s) \<or> Awaiting l \<in> set (workers s) \<or>
            generatedImages s l = Some (published (generate img (prompt_for l)))"
          by (auto simp: states_inv_def)
        then show "l \<in> set (decadesQueue s') \<or> Awaiting l \<in> set (workers s') \<or>
            generatedImages s' l = Some (published (generate img (prompt_for l)))"
          using keep_awaiting[of l "workers s" i "Awaiting d"] Resume(3) here inq
          by (auto simp: eq)
      qed
    qed
  qed
next
  case (Settle i d)
  show ?thesis unfolding states_inv_def
  proof (intro ballI impI)
    fix l assume l: "l \<in> set decades" "truthy l"
    from assms(2) l have old: "l \<in> set (decadesQueue s) \<or> Awaiting l \<in> set (workers s) \<or>
        generatedImages s l = Some (published (generate img (prompt_for l)))"
      by (auto simp: states_inv_def)
    show "l \<in> set (decadesQueue s') \<or> Awaiting l \<in> set (workers s') \<or>
        generatedImages s' l = Some (published (generate img (prompt_for l)))"
    proof (cases "l = d")
      case True
      then show ?thesis using Settle by (simp add: settle_eq)
    next
      case False
      then show ?thesis
        using old keep_awaiting[of l "workers s" i AtLoop] Settle by (auto simp: settle_eq)
    qed
  qed
next
  case Join
  then show ?thesis using assms(2) by (simp add: states_inv_def)
qed

lemma reported_inv_step:
  assumes "step generate img e s = Some s'" "reported_inv generate img decades s"
  shows "reported_inv generate img decades s'"
  using assms(1)
proof (cases rule: step_cases)
  case Other
  then show ?thesis using assms(2) by (simp add: reported_inv_def)
next
  case (Resume i)
  show ?thesis
  proof (cases "worker_loop (decadesQueue s)")
    case (Pair r rest)
    show ?thesis
    proof (cases r)
      case None
      with Pair have q: "rest = []" "filter truthy (decadesQueue s) = []"
        using worker_loop_None by blast+
      have eq: "s' = s\<lparr>decadesQueue := [], workers := (workers s)[i := Finished]\<rparr>"
        using Pair None q Resume by (simp add: resume_def)
      show ?thesis unfolding reported_inv_def
      proof (intro ballI impI)
        fix l assume l: "l \<in> set decades" "truthy l"
        from q(2) l(2) have "l \<notin> set (decadesQueue s)" by (auto simp: filter_empty_conv)
        with assms(2) l have "Awaiting l \<in> set (workers s) \<or>
            (l, published (generate img (prompt_for l))) \<in> set (reported s)"
          by (auto simp: reported_inv_def)
        then show "l \<in> set (decadesQueue s') \<or> Awaiting l \<in> set (workers s') \<or>
            (l, published (generate img (prompt_for l))) \<in> set (reported s')"
          using keep_awaiting[of l "workers s" i Finished] Resume(3) by (auto simp: eq)
      qed
    next
      case (Some d)
      with Pair have q: "filter truthy (decadesQueue s) = d # filter truthy rest"
        using worker_loop_Some by blast
      have eq: "s' = s\<lparr>decadesQueue := rest, workers := (workers s)[i := Awaiting d],
          calls := calls s @ [(img, prompt_for d)], inflight := inflight s @ [(i, d)],
          pool_calls := pool_calls s @ [(img, prompt_for d)]\<rparr>"
        using Pair Some Resume by (simp add: resume_def)
      show ?thesis unfolding reported_inv_def
      proof (intro ballI impI)
        fix l assume l: "l \<in> set decades" "truthy l"
        have here: "Awaiting d \<in> set ((workers s)[i := Awaiting d])"
          using Resume(2) by (simp add: set_update_memI)
        have inq: "l = d \<or> l \<in> set rest" if "l \<in> set (decadesQueue s)"
        proof -
          from that l(2) have "l \<in> set (filter truthy (decadesQueue s))" by simp
          with q show ?thesis by auto
        qed
        from assms(2) l have "l \<in> set (decadesQueue s) \<or> Awaiting l \<in> set (workers s) \<or>
            (l, published (generate img (prompt_for l))) \<in> set (reported s)"
          by (auto simp: reported_inv_def)
        then show "l \<in> set (decadesQueue s') \<or> Awaiting l \<in> set (workers s') \<or>
            (l, published (generate img (prompt_for l))) \<in> set (reported s')"
          using keep_awaiting[of l "workers s" i "Awaiting d"] Resume(3) here inq
          by (auto simp: eq)
      qed
    qed
  qed
next
  case (Settle i d)
  show ?thesis unfolding reported_inv_def
  proof (intro ballI impI)
    fix l assume l: "l \<in> set decades" "truthy l"
    from assms(2) l have old: "l \<in> set (decadesQueue s) \<or> Awaiting l \<in> set (workers s) \<or>
        (l, published (generate img (prompt_for l))) \<in> set (reported s)"
      by (auto simp: reported_inv_def)
    show "l \<in> set (decadesQueue s') \<or> Awaiting l \<in> set (workers s') \<or>
        (l, published (generate img (prompt_for l))) \<in> set (reported s')"
    proof (cases "l = d")
      case True
      then show ?thesis using Settle by (simp add: settle_eq)
    next
      case False
      then show ?thesis
        using old keep_awaiting[of l "workers s" i AtLoop] Settle by (auto simp: settle_eq)
    qed
  qed
next
  case Join
  then show ?thesis using assms(2) by (simp add: reported_inv_def)
qed

lemma reported_exact_step:
  assumes "step generate img e s = Some s'" "reported_exact generate img s"
  shows "reported_exact generate img s'"
  using assms(1)
proof (cases rule: step_cases)
  case (Resume i)
  show ?thesis
  proof (cases "worker_loop (decadesQueue s)")
    case (Pair r rest)
    with Resume assms(2) show ?thesis by (cases r) (simp_all add: reported_exact_def resume_def)
  qed
next
  case (Settle i d)
  then show ?thesis using assms(2) by (simp add: reported_exact_def settle_eq)
next
  case Join
  then show ?thesis using assms(2) by (simp add: reported_exact_def)
next
  case Other
  then show ?thesis using assms(2) by (simp add: reported_exact_def)
qed

lemma weight_update:
  "i < length ws \<Longrightarrow>
     sum_list (map weight (ws[i := v])) + weight (ws ! i) = sum_list (map weight ws) + weight v"
proof (induction ws arbitrary: i)
  case Nil
  then show ?case by simp
next
  case (Cons w ws)
  then show ?case by (cases i) auto
qed

lemma step_decreases:
  assumes "step generate img e s = Some s'"
  shows "(if pool_event e then 1 else 0) + remaining s' \<le> remaining s"
  using assms
proof (cases rule: step_cases)
  case Other
  then show ?thesis by (simp add: remaining_def)
next
  case (Resume i)
  show ?thesis
  proof (cases "worker_loop (decadesQueue s)")
    case (Pair r rest)
    show ?thesis
    proof (cases r)
      case None
      with Pair have q: "rest = []" using worker_loop_None by blast
      show ?thesis
        using weight_update[OF Resume(2), of Finished] Resume(3,4) Pair None q
        by (simp add: remaining_def resume_def)
    next
      case (Some d)
      with Pair have q: "length rest < length (decadesQueue s)" using worker_loop_Some by blast
      show ?thesis
        using weight_update[OF Resume(2), of "Awaiting d"] Resume(3,4) Pair Some q
        by (simp add: remaining_def resume_def)
    qed
  qed
next
  case (Settle i d)
  show ?thesis
    using weight_update[OF Settle(2), of AtLoop] Settle(3,4)
    by (simp add: remaining_def settle_eq)
next
  case Join
  then show ?thesis by (simp add: remaining_def)
qed

lemma run_bounded:
  "run generate img es s = Some s' \<Longrightarrow>
     length (filter pool_event es) + remaining s' \<le> remaining s"
proof (induction es arbitrary: s)
  case Nil
  then show ?case by simp
next
  case (Cons e es)
  then obtain s1 where s1: "step generate img e s = Some s1" "run generate img es s1 = Some s'"
    by (auto split: option.splits)
  from Cons.IH[OF s1(2)] step_decreases[OF s1(1)] show ?case by (simp split: if_splits)
qed

lemma remaining_begin:
  "\<not> no_upload (uploadedImage s) \<Longrightarrow>
     remaining (handleGenerateClick_begin decades s) = 3 * length decades + concurrencyLimit + 1"
  by (simp add: remaining_def handleGenerateClick_begin_def sum_list_replicate)

lemma progress:
  assumes inv: "pool_inv s" and gen: "appState s = Generating"
  shows "\<exists>e s'. pool_event e \<and> step generate img e s = Some s'"
proof (cases "list_all (\<lambda>w. w = Finished) (workers s)")
  case True
  with gen have "pool_event Join \<and> step generate img Join s = Some (s\<lparr>appState := ResultsShown\<rparr>)"
    by simp
  then show ?thesis by blast
next
  case False
  then obtain i where i: "i < length (workers s)" "workers s ! i \<noteq> Finished"
    by (auto simp: list_all_iff in_set_conv_nth)
  note D = pool_invD[OF inv]
  show ?thesis
  proof (cases "workers s ! i")
    case AtLoop
    with i have "pool_event (Resume i) \<and> step generate img (Resume i) s = Some (resume img i s)"
      by simp
    then show ?thesis by blast
  next
    case (Awaiting d)
    with i have "pool_event (Settle i) \<and>
        step generate img (Settle i) s = Some (settle generate img i d s)" by simp
    then show ?thesis by blast
  next
    case Finished
    with i show ?thesis by simp
  next
    case (Failed err)
    with D(4)[of "workers s ! i" err] i nth_mem[of i "workers s"] show ?thesis by simp
  qed
qed

lemma length_remove1_in: "x \<in> set xs \<Longrightarrow> Suc (length (remove1 x xs)) = length xs"
  by (induction xs) auto

lemma issued_step:
  assumes st: "step generate img e s = Some s'" and inv: "pool_inv s"
    and n: "length (pool_calls s) = n + length (inflight s)"
  shows "length (pool_calls s') = n + (if settled e then 1 else 0) + length (inflight s')"
  using st
proof (cases rule: step_cases)
  case Other
  with n show ?thesis by (cases e) simp_all
next
  case (Resume i)
  show ?thesis
  proof (cases "worker_loop (decadesQueue s)")
    case (Pair r rest)
    with Resume n show ?thesis by (cases r) (simp_all add: resume_def)
  qed
next
  case (Settle i d)
  have "(i, d) \<in> set (inflight s)" using pool_invD(7)[OF inv Settle(2,3)] .
  then have "length (remove1 (i, d) (inflight s)) + 1 = length (inflight s)"
    using length_remove1_in[of "(i, d)" "inflight s"] by simp
  with Settle n show ?thesis by (simp add: settle_eq)
next
  case Join
  with n show ?thesis by simp
qed

lemma issued_run:
  "run generate img es s = Some s' \<Longrightarrow> pool_inv s \<Longrightarrow>
   length (pool_calls s) = n + length (inflight s) \<Longrightarrow>
   length (pool_calls s') = n + length (filter settled es) + length (inflight s')"
proof (induction es arbitrary: s n)
  case Nil
  then show ?case by simp
next
  case (Cons e es)
  then obtain s1 where s1: "step generate img e s = Some s1" "run generate img es s1 = Some s'"
    by (auto split: option.splits)
  have "length (pool_calls s1) = (n + (if settled e then 1 else 0)) + length (inflight s1)"
    using issued_step[OF s1(1) Cons.prems(2,3)] .
  from Cons.IH[OF s1(2) pool_inv_step[OF s1(1) Cons.prems(2)] this] show ?case by simp
qed

lemma run_inv:
  assumes "run generate img es s = Some s'"
  shows "pool_inv s \<Longrightarrow> pool_inv s'"
    and "calls_inv img decades s \<Longrightarrow> calls_inv img decades s'"
    and "reported_inv generate img decades s \<Longrightarrow> reported_inv generate img decades s'"
    and "reported_exact generate img s \<Longrightarrow> reported_exact generate img s'"
  using assms
  by (induction es arbitrary: s)
     (auto split: option.splits
        dest: pool_inv_step calls_inv_step reported_inv_step reported_exact_step)

lemma run_states_inv:
  "run generate img es s = Some s' \<Longrightarrow> list_all pool_event es \<Longrightarrow>
     states_inv generate img decades s \<Longrightarrow> states_inv generate img decades s'"
  by (induction es arbitrary: s) (auto split: option.splits dest: states_inv_step)

lemma published_status: "status (published out) = Done \<or> status (published out) = Error"
  by (cases out) (simp_all add: published_def)

lemma begin_invs:
  assumes "uploadedImage s0 = Some img" "truthy img"
  shows "pool_inv (handleGenerateClick_begin decades s0)"
    and "calls_inv img decades (handleGenerateClick_begin decades s0)"
    and "states_inv generate img decades (handleGenerateClick_begin decades s0)"
    and "remaining (handleGenerateClick_begin decades s0) = 3 * length decades + concurrencyLimit + 1"
    and "length (pool_calls (handleGenerateClick_begin decades s0)) =
         0 + length (inflight (handleGenerateClick_begin decades s0))"
    and "reported_inv generate img decades (handleGenerateClick_begin decades s0)"
    and "reported_exact generate img (handleGenerateClick_begin decades s0)"
proof -
  have u: "\<not> no_upload (uploadedImage s0)" using assms by (simp add: no_upload_def)
  show "pool_inv (handleGenerateClick_begin decades s0)" using u by (rule pool_inv_begin)
  show "calls_inv img decades (handleGenerateClick_begin decades s0)" using u by (rule calls_inv_begin)
  show "states_inv generate img decades (handleGenerateClick_begin decades s0)"
    using u by (rule states_inv_begin)
  show "remaining (handleGenerateClick_begin decades s0) = 3 * length decades + concurrencyLimit + 1"
    using u by (rule remaining_begin)
  show "length (pool_calls (handleGenerateClick_begin decades s0)) =
         0 + length (inflight (handleGenerateClick_begin decades s0))"
    using u by (simp add: handleGenerateClick_begin_def)
  show "reported_inv generate img decades (handleGenerateClick_begin decades s0)"
    using u by (simp add: reported_inv_def handleGenerateClick_begin_def)
  show "reported_exact generate img (handleGenerateClick_begin decades s0)"
    using u by (simp add: reported_exact_def handleGenerateClick_begin_def)
qed

lemma resolved_facts:
  assumes inv: "pool_inv s" and res: "appState s = ResultsShown"
  shows "decadesQueue s = []" and "\<And>l. Awaiting l \<notin> set (workers s)" and "inflight s = []"
proof -
  note D = pool_invD[OF inv]
  have fin: "list_all (\<lambda>w. w = Finished) (workers s)" using D(6) res by simp
  have "workers s \<noteq> []" using D(1) by (auto simp: concurrencyLimit_def)
  with fin have "Finished \<in> set (workers s)" by (cases "workers s") auto
  then show "decadesQueue s = []" by (rule D(5))
  show aw: "Awaiting l \<notin> set (workers s)" for l using fin by (auto simp: list_all_iff)
  show "inflight s = []"
  proof (cases "inflight s")
    case Nil
    then show ?thesis .
  next
    case (Cons c cs)
    then have "c \<in> set (inflight s)" by simp
    from D(3)[OF this] have "Awaiting (snd c) \<in> set (workers s)" by (metis nth_mem)
    with aw show ?thesis by simp
  qed
qed

lemma reachable_facts:
  assumes up: "uploadedImage s0 = Some img" "truthy img"
    and run: "run generate img es (handleGenerateClick_begin decades s0) = Some s"
  shows "pool_inv s" and "calls_inv img decades s" and "reported_inv generate img decades s"
    and "length (filter pool_event es) \<le> 3 * length decades + concurrencyLimit + 1"
    and "length (pool_calls s) = length (filter settled es) + length (inflight s)"
    and "appState s = ResultsShown \<or> (\<exists>e s'. pool_event e \<and> step generate img e s = Some s')"
    and "list_all pool_event es \<Longrightarrow> states_inv generate img decades s"
    and "reported_exact generate img s"
proof -
  note B = begin_invs[OF up]
  show inv: "pool_inv s" using run_inv(1)[OF run B(1)] .
  show "calls_inv img decades s" using run_inv(2)[OF run B(2)] .
  show "reported_inv generate img decades s" using run_inv(3)[OF run B(6)] .
  show "length (filter pool_event es) \<le> 3 * length decades + concurrencyLimit + 1"
    using run_bounded[OF run] B(4) by simp
  show "length (pool_calls s) = length (filter settled es) + length (inflight s)"
    using issued_run[OF run B(1) B(5)] by simp
  show "appState s = ResultsShown \<or> (\<exists>e s'. pool_event e \<and> step generate img e s = Some s')"
    using progress[OF inv] pool_invD(8)[OF inv] by blast
  show "states_inv generate img decades s" if "list_all pool_event es"
    using run_states_inv[OF run that B(3)] .
  show "reported_exact generate img s" using run_inv(4)[OF run B(7)] .
qed

lemmas round_eval = handleGenerateClick_begin_def uploaded_session_def no_upload_def truthy_def
  concurrencyLimit_def resume_def settle_eq initialImages_def numeral_2_eq_2

lemmas retry_eval = handleRegenerateDecade_begin_def handleRegenerateDecade_settled_def
  is_pending_def set_pending_def published_def processDecade_settled_published

section \<open>Lemmas about the compositor\<close>

lemma set_arrival_order: "set (arrival_order env n) = {0..<n}"
  by (simp add: arrival_order_def)

lemma first_rejection_None: "\<forall>p \<in> set ps. \<not> isl p \<Longrightarrow> first_rejection ps = None"
  by (induction ps rule: first_rejection.induct) auto

lemma first_rejection_Some:
  "p \<in> set ps \<Longrightarrow> isl p \<Longrightarrow> \<exists>err. first_rejection ps = Some err \<and> Inl err \<in> set ps"
  by (induction ps rule: first_rejection.induct) auto

lemma fulfilled_loads:
  "(\<And>src. src \<in> set sources \<Longrightarrow> decodes env src) \<Longrightarrow>
     fulfilled_values (map (loadImage env) sources) = map Image sources"
  by (induction sources) (simp_all add: loadImage_def)

lemma load_ends_ok:
  "(\<And>src. src \<in> set xs \<Longrightarrow> decodes env src) \<Longrightarrow>
     load_ends env xs = map (\<lambda>src. LoadEnd src True) xs"
  by (induction xs) simp_all

lemma load_ends_is_load: "list_all is_load (load_ends env xs)"
  by (induction xs) simp_all

lemma load_starts_is_load: "list_all is_load (map LoadStart xs)"
  by (induction xs) simp_all

lemma arrivals_set:
  "set (map (\<lambda>i. xs ! i) (arrival_order env (length xs))) = set xs"
  using nth_image[of "length xs" xs] by (simp add: set_arrival_order)

lemma arrived_loads:
  "map (\<lambda>i. map (loadImage env) sources ! i) (arrival_order env (length sources))
     = map (loadImage env) (map (\<lambda>i. sources ! i) (arrival_order env (length sources)))"
  using set_arrival_order[of env "length sources"] by auto

lemma zip_decades_comp:
  "zip (map fst imageData) (map (Image \<circ> snd) imageData) = map (\<lambda>p. (fst p, Image (snd p))) imageData"
  by (induction imageData) simp_all

lemma promise_all_ok:
  assumes "\<And>src. src \<in> set sources \<Longrightarrow> decodes env src"
  shows "promise_all (arrival_order env (length sources)) (map (loadImage env) sources)
           = Inr (map Image sources)"
proof -
  have arr: "set (map (loadImage env) (map (\<lambda>i. sources ! i) (arrival_order env (length sources))))
      = loadImage env ` set sources"
    unfolding set_map[of "loadImage env"] arrivals_set ..
  have "\<forall>p \<in> set (map (loadImage env) (map (\<lambda>i. sources ! i) (arrival_order env (length sources)))).
      \<not> isl p"
    unfolding arr using assms by (simp add: loadImage_def)
  then have "first_rejection (map (loadImage env) (map (\<lambda>i. sources ! i) (arrival_order env (length sources)))) = None"
    by (rule first_rejection_None)
  then show ?thesis
    using assms by (simp add: promise_all_def arrived_loads fulfilled_loads)
qed

lemma promise_all_failed:
  assumes "bad \<in> set sources" "\<not> decodes env bad"
  shows "\<exists>src \<in> set sources. \<not> decodes env src \<and>
           promise_all (arrival_order env (length sources)) (map (loadImage env) sources)
             = Inl (load_failure src)"
proof -
  let ?arrived = "map (loadImage env) (map (\<lambda>i. sources ! i) (arrival_order env (length sources)))"
  have arr: "set ?arrived = loadImage env ` set sources"
    unfolding set_map[of "loadImage env"] arrivals_set ..
  have "loadImage env bad \<in> set ?arrived" "isl (loadImage env bad)"
    unfolding arr using assms by (simp_all add: loadImage_def)
  then obtain err where err: "first_rejection ?arrived = Some err" "Inl err \<in> set ?arrived"
    using first_rejection_Some by blast
  from err(2) obtain src where src: "src \<in> set sources" "loadImage env src = Inl err"
    unfolding arr by auto
  then have "\<not> decodes env src" "err = load_failure src"
    by (auto simp: loadImage_def split: if_splits)
  with src(1) err(1) show ?thesis by (auto simp: promise_all_def arrived_loads)
qed

lemma rotations_polaroids:
  "Rotate a \<in> set (draw_polaroids env k xs) \<Longrightarrow> \<exists>n. a = rotation (math_random env n)"
  by (induction xs arbitrary: k) (auto simp: draw_polaroid_def Let_def)

lemma rotation_bound: "0 \<le> r \<Longrightarrow> r < 1 \<Longrightarrow> \<bar>rotation r\<bar> \<le> 35 / 1000"
  by (auto simp: rotation_def abs_le_iff field_simps)

lemma polaroids_no_load: "list_all (\<lambda>e. \<not> is_load e) (map Canvas ops)"
  by (induction ops) simp_all

lemma createAlbumPage_ok:
  assumes "has_context env" and "\<And>src. src \<in> set (map snd imageData) \<Longrightarrow> decodes env src"
  shows "createAlbumPage env imageData =
     (map Canvas draw_background @ [FontsLoad ''150px Poppins'', FontsLoad ''80px Inter''] @
      map Canvas draw_title @
      (map LoadStart (map snd imageData) @
       map (\<lambda>src. LoadEnd src True)
         (map (\<lambda>i. map snd imageData ! i) (arrival_order env (length imageData)))) @
      map Canvas (draw_polaroids env 0 (map (\<lambda>p. (fst p, Image (snd p))) imageData)) @
      [ToDataURL ''image/jpeg'' (92 / 100)],
      Inr \<lparr>mime = ''image/jpeg'', quality = 92 / 100, width = canvasWidth, height = canvasHeight,
           painted = draw_background @ draw_title @
             draw_polaroids env 0 (map (\<lambda>p. (fst p, Image (snd p))) imageData)\<rparr>)"
proof -
  have le: "load_ends env (map (\<lambda>i. map snd imageData ! i) (arrival_order env (length (map snd imageData))))
      = map (\<lambda>src. LoadEnd src True) (map (\<lambda>i. map snd imageData ! i) (arrival_order env (length (map snd imageData))))"
    using assms(2) arrivals_set[of "map snd imageData" env] by (intro load_ends_ok) blast
  show ?thesis
    using assms(1) promise_all_ok[of "map snd imageData" env, OF assms(2)] le
    by (simp add: createAlbumPage_def Let_def zip_decades_comp)
qed

lemma createAlbumPage_failed:
  assumes "has_context env" and "bad \<in> set (map snd imageData)" "\<not> decodes env bad"
  shows "\<exists>src \<in> set (map snd imageData). \<not> decodes env src \<and>
     createAlbumPage env imageData =
     (map Canvas draw_background @ [FontsLoad ''150px Poppins'', FontsLoad ''80px Inter''] @
      map Canvas draw_title @
      (map LoadStart (map snd imageData) @
       load_ends env (map (\<lambda>i. map snd imageData ! i) (arrival_order env (length imageData)))),
      Inl (load_failure src))"
proof -
  from promise_all_failed[OF assms(2,3)] obtain src where
    "src \<in> set (map snd imageData)" "\<not> decodes env src"
    "promise_all (arrival_order env (length (map snd imageData))) (map (loadImage env) (map snd imageData))
             = Inl (load_failure src)" by blast
  with assms(1) show ?thesis
    by (intro bexI[of _ src]) (simp_all add: createAlbumPage_def Let_def)
qed

text \<open>
  Rendering the operations of \<open>createAlbumPage\<close>: each polaroid leaves its three
  marks and the state of the context as it was, so the page is its head followed by the
  cells in order.
\<close>

lemma render_polaroid:
  assumes "place c = page_frame"
  shows "render c [] (draw_polaroid r i decade img @ ops) =
           polaroid_marks i (rotation r) decade img @ render c [] ops"
  using assms
  by (simp add: draw_polaroid_def Let_def page_frame_def cell_centre_def polaroid_marks_def
      cellWidth_def grid_padding_def grid_cols_def canvasWidth_def)

lemma render_polaroids:
  assumes "place c = page_frame"
  shows "render c [] (draw_polaroids env k xs @ ops) =
           concat (map (\<lambda>(i, label, img). polaroid_marks i (rotation (math_random env i)) label img)
                    (enumerate k xs)) @ render c [] ops"
proof (induction xs arbitrary: k)
  case Nil
  then show ?case by simp
next
  case (Cons x xs)
  obtain decade img where x: "x = (decade, img)" by (cases x)
  show ?case using Cons.IH[of "Suc k"] by (simp add: x render_polaroid[OF assms])
qed

lemma render_page_head:
  "render fresh_ctx [] (draw_background @ draw_title @ ops) =
     page_marks @
     render (fresh_ctx\<lparr>fill_style := ''#0f172a'', align := ''center'', font_face := title_font\<rparr>) [] ops"
  by (simp add: draw_background_def draw_title_def fresh_ctx_def page_marks_def
      canvasWidth_def canvasHeight_def)

lemma enumerate_map_snd:
  "enumerate k (map (\<lambda>p. (fst p, Image (snd p))) xs) =
     map (\<lambda>(i, label, src). (i, label, Image src)) (enumerate k xs)"
  by (induction xs arbitrary: k) auto

lemma render_album:
  "render fresh_ctx []
     (draw_background @ draw_title @ draw_polaroids env 0 (map (\<lambda>p. (fst p, Image (snd p))) imageData)) =
   page_marks @
   concat (map (\<lambda>(i, label, src). polaroid_marks i (rotation (math_random env i)) label (Image src))
             (enumerate 0 imageData))"
proof -
  let ?c = "fresh_ctx\<lparr>fill_style := ''#0f172a'', align := ''center'', font_face := title_font\<rparr>"
  have pl: "place ?c = page_frame" by (simp add: fresh_ctx_def)
  have "render ?c [] (draw_polaroids env 0 (map (\<lambda>p. (fst p, Image (snd p))) imageData) @ []) =
      concat (map (\<lambda>(i, label, img). polaroid_marks i (rotation (math_random env i)) label img)
                (enumerate 0 (map (\<lambda>p. (fst p, Image (snd p))) imageData))) @ render ?c [] []"
    by (rule render_polaroids[OF pl])
  then show ?thesis
    using render_page_head[of "draw_polaroids env 0 (map (\<lambda>p. (fst p, Image (snd p))) imageData)"]
    by (simp add: enumerate_map_snd comp_def case_prod_unfold)
qed

text \<open>
  A card turned by at most 0.035 about the centre of one of the six cells of the grid
  stays on the canvas.
\<close>

lemma turned_point_bounds:
  fixes a x y :: real
  assumes a: "\<bar>a\<bar> \<le> 35 / 1000" and x: "\<bar>x\<bar> \<le> 436" and y: "\<bar>y\<bar> \<le> 2616 / 5"
  shows "\<bar>x * cos a - y * sin a\<bar> \<le> 455" and "\<bar>x * sin a + y * cos a\<bar> \<le> 539"
proof -
  have s: "\<bar>sin a\<bar> \<le> 35 / 1000" using abs_sin_x_le_abs_x[of a] a by linarith
  have c: "\<bar>cos a\<bar> \<le> 1" by (rule abs_cos_le_one)
  have xc: "\<bar>x * cos a\<bar> \<le> 436 * 1"
    unfolding abs_mult using x c by (intro mult_mono) simp_all
  have ys: "\<bar>y * sin a\<bar> \<le> (2616 / 5) * (35 / 1000)"
    unfolding abs_mult using y s by (intro mult_mono) simp_all
  have xs: "\<bar>x * sin a\<bar> \<le> 436 * (35 / 1000)"
    unfolding abs_mult using x s by (intro mult_mono) simp_all
  have yc: "\<bar>y * cos a\<bar> \<le> (2616 / 5) * 1"
    unfolding abs_mult using y c by (intro mult_mono) simp_all
  show "\<bar>x * cos a - y * sin a\<bar> \<le> 455" using xc ys by linarith
  show "\<bar>x * sin a + y * cos a\<bar> \<le> 539" using xs yc by linarith
qed

lemma cell_centre_range:
  assumes "i < grid_cols * grid_rows"
  shows "645 \<le> fst (cell_centre (i div grid_cols) (i mod grid_cols))"
    and "fst (cell_centre (i div grid_cols) (i mod grid_cols)) \<le> 1835"
    and "2854 / 3 \<le> snd (cell_centre (i div grid_cols) (i mod grid_cols))"
    and "snd (cell_centre (i div grid_cols) (i mod grid_cols)) \<le> 8870 / 3"
proof -
  have "i div 2 \<le> 2" "i mod 2 \<le> 1" using assms by (auto simp: grid_cols_def grid_rows_def)
  then have r: "real (i div 2) \<le> 2" "real (i mod 2) \<le> 1" "0 \<le> real (i div 2)" "0 \<le> real (i mod 2)"
    by simp_all
  have cx: "fst (cell_centre (i div grid_cols) (i mod grid_cols)) = 645 + real (i mod 2) * 1190"
    by (simp add: cell_centre_def cellWidth_def grid_padding_def grid_cols_def canvasWidth_def)
  have cy: "snd (cell_centre (i div grid_cols) (i mod grid_cols)) = 2854 / 3 + real (i div 2) * (3008 / 3)"
    by (simp add: cell_centre_def cellHeight_def grid_padding_def grid_cols_def grid_rows_def
        contentTopMargin_def contentHeight_def canvasHeight_def field_simps)
  show "645 \<le> fst (cell_centre (i div grid_cols) (i mod grid_cols))"
    "fst (cell_centre (i div grid_cols) (i mod grid_cols)) \<le> 1835"
    unfolding cx using r by simp_all
  show "2854 / 3 \<le> snd (cell_centre (i div grid_cols) (i mod grid_cols))"
    "snd (cell_centre (i div grid_cols) (i mod grid_cols)) \<le> 8870 / 3"
    unfolding cy using r by simp_all
qed

lemma cell_point_inside:
  assumes i: "i < grid_cols * grid_rows" and a: "\<bar>a\<bar> \<le> 35 / 1000"
    and x: "\<bar>x\<bar> \<le> 436" and y: "\<bar>y\<bar> \<le> 2616 / 5"
  shows "inside_canvas
           (canvas_point \<lparr>origin_x = fst (cell_centre (i div grid_cols) (i mod grid_cols)),
                          origin_y = snd (cell_centre (i div grid_cols) (i mod grid_cols)),
                          angle = a\<rparr> x y)"
  using turned_point_bounds[OF a x y] cell_centre_range[OF i]
  by (simp add: inside_canvas_def canvas_point_def canvasWidth_def canvasHeight_def abs_le_iff)

lemma polaroid_on_canvas:
  assumes "i < grid_cols * grid_rows" and "\<bar>turn\<bar> \<le> 35 / 1000"
  shows "list_all on_canvas (polaroid_marks i turn label img)"
  using assms by (simp add: polaroid_marks_def Let_def on_canvas_def cell_point_inside)

lemma page_marks_on_canvas: "list_all on_canvas page_marks"
  by (simp add: page_marks_def on_canvas_def inside_canvas_def canvas_point_def page_frame_def
      canvasWidth_def canvasHeight_def)

lemma enumerate_index: "(i, x) \<in> set (enumerate k xs) \<Longrightarrow> k \<le> i \<and> i < k + length xs"
  by (auto simp: in_set_enumerate_eq)

text \<open>The page of nine entries, drawn level.\<close>

lemma cell_centre_val:
  "cell_centre r c = (645 + real c * 1190, 2854 / 3 + real r * (3008 / 3))"
  by (simp add: cell_centre_def cellWidth_def cellHeight_def grid_padding_def grid_cols_def
      grid_rows_def contentTopMargin_def contentHeight_def canvasWidth_def canvasHeight_def
      field_simps)

lemma enumerate_nine:
  "enumerate 0 nine_decades =
     [(0, ''1920s'', ''img0''), (1, ''1930s'', ''img1''), (2, ''1940s'', ''img2''),
      (3, ''1950s'', ''img3''), (4, ''1960s'', ''img4''), (5, ''1970s'', ''img5''),
      (6, ''1980s'', ''img6''), (7, ''1990s'', ''img7''), (8, ''2000s'', ''img8'')]"
  by (simp add: nine_decades_def)

lemma level_polaroid:
  "map on_canvas (polaroid_marks i 0 label img) =
     (let y = 2854 / 3 + real (i div 2) * (3008 / 3)
      in [y + 2616 / 5 \<le> 3508, y + 1526 / 5 \<le> 3508, y + 913 / 5 \<le> 3508])"
  "map below_canvas (polaroid_marks i 0 label img) =
     (let y = 2854 / 3 + real (i div 2) * (3008 / 3)
      in [3508 < y - 2616 / 5, 3508 < y - 2398 / 5, 3508 < y + 913 / 5])"
proof -
  have "i mod 2 = 0 \<or> i mod 2 = 1" by presburger
  then have x: "real (i mod 2) = 0 \<or> real (i mod 2) = 1" by auto
  have y: "0 \<le> real (i div 2)" by simp
  show "map on_canvas (polaroid_marks i 0 label img) =
     (let y = 2854 / 3 + real (i div 2) * (3008 / 3)
      in [y + 2616 / 5 \<le> 3508, y + 1526 / 5 \<le> 3508, y + 913 / 5 \<le> 3508])"
    using x y
    by (auto simp: polaroid_marks_def Let_def on_canvas_def inside_canvas_def canvas_point_def
        cell_centre_val grid_cols_def canvasWidth_def canvasHeight_def)
  show "map below_canvas (polaroid_marks i 0 label img) =
     (let y = 2854 / 3 + real (i div 2) * (3008 / 3)
      in [3508 < y - 2616 / 5, 3508 < y - 2398 / 5, 3508 < y + 913 / 5])"
    using x y
    by (auto simp: polaroid_marks_def Let_def below_canvas_def canvas_point_def
        cell_centre_val grid_cols_def canvasWidth_def canvasHeight_def)
qed

lemma level_album:
  "\<exists>page. snd (createAlbumPage level_browser nine_decades) = Inr page \<and>
     width page = 2480 \<and> height page = 3508 \<and>
     render fresh_ctx [] (painted page) =
       page_marks @
       concat (map (\<lambda>(i, label, src). polaroid_marks i 0 label (Image src))
                 (enumerate 0 nine_decades))"
proof -
  let ?cells = "map (\<lambda>p. (fst p, Image (snd p))) nine_decades"
  let ?page = "\<lparr>mime = ''image/jpeg'', quality = 92 / 100, width = canvasWidth, height = canvasHeight,
           painted = draw_background @ draw_title @ draw_polaroids level_browser 0 ?cells\<rparr>"
  have c: "has_context level_browser" by (simp add: level_browser_def)
  have d: "\<forall>src \<in> set (map snd nine_decades). decodes level_browser src"
    by (simp add: level_browser_def)
  have ok: "createAlbumPage level_browser nine_decades =
     (map Canvas draw_background @ [FontsLoad ''150px Poppins'', FontsLoad ''80px Inter''] @
      map Canvas draw_title @
      (map LoadStart (map snd nine_decades) @
       map (\<lambda>src. LoadEnd src True)
         (map (\<lambda>i. map snd nine_decades ! i) (arrival_order level_browser (length nine_decades)))) @
      map Canvas (draw_polaroids level_browser 0 ?cells) @
      [ToDataURL ''image/jpeg'' (92 / 100)], Inr ?page)"
    using createAlbumPage_ok[OF c] d by blast
  have "snd (createAlbumPage level_browser nine_decades) = Inr ?page"
    unfolding ok by simp
  moreover have "render fresh_ctx [] (painted ?page) =
       page_marks @
       concat (map (\<lambda>(i, label, src). polaroid_marks i 0 label (Image src))
                 (enumerate 0 nine_decades))"
    using render_album[of level_browser nine_decades]
    by (simp add: level_browser_def rotation_def)
  moreover have "width ?page = 2480" "height ?page = 3508"
    by (simp_all add: canvasWidth_def canvasHeight_def)
  ultimately show ?thesis by blast
qed

lemma nine_marks:
  "map on_canvas (page_marks @
       concat (map (\<lambda>(i, label, src). polaroid_marks i 0 label (Image src))
                 (enumerate 0 nine_decades))) = replicate 20 True @ replicate 9 False"
  "map below_canvas (page_marks @
       concat (map (\<lambda>(i, label, src). polaroid_marks i 0 label (Image src))
                 (enumerate 0 nine_decades))) =
     replicate 20 False @ [False, False, True, False, False, True, True, True, True]"
proof -
  have pg: "map on_canvas page_marks = [True, True]" "map below_canvas page_marks = [False, False]"
    by (simp_all add: page_marks_def on_canvas_def below_canvas_def inside_canvas_def
        canvas_point_def page_frame_def canvasWidth_def canvasHeight_def)
  have rep: "replicate 20 True = replicate 2 True @ replicate 18 True"
    "replicate 20 False = replicate 2 False @ replicate 18 False"
    "replicate 18 True = [True, True, True, True, True, True, True, True, True,
                          True, True, True, True, True, True, True, True, True]"
    "replicate 18 False = [False, False, False, False, False, False, False, False, False,
                           False, False, False, False, False, False, False, False, False]"
    "replicate 9 False = [False, False, False, False, False, False, False, False, False]"
    "replicate 2 True = [True, True]" "replicate 2 False = [False, False]"
    by (simp_all add: numeral_eq_Suc)
  show "map on_canvas (page_marks @
       concat (map (\<lambda>(i, label, src). polaroid_marks i 0 label (Image src))
                 (enumerate 0 nine_decades))) = replicate 20 True @ replicate 9 False"
    unfolding enumerate_nine rep
    by (simp add: pg level_polaroid(1) Let_def)
  show "map below_canvas (page_marks @
       concat (map (\<lambda>(i, label, src). polaroid_marks i 0 label (Image src))
                 (enumerate 0 nine_decades))) =
     replicate 20 False @ [False, False, True, False, False, True, True, True, True]"
    unfolding enumerate_nine rep
    by (simp add: pg level_polaroid(2) Let_def)
qed

section \<open>Properties of the scheduler\<close>

subsection \<open>The single-item retry\<close>

text \<open>
  C6. For every label whose current state is pending, the retry is a silent no-op: the
  function returns at its guard, without an error and without invoking \<open>generate\<close>
  (no call is issued and the log of calls is the one before), and the result map, like
  the rest of the session, is unchanged.
\<close>

theorem retry_pending_noop:
  assumes "generatedImages s decade = Some g" and "status g = Pending"
  shows "handleRegenerateDecade_begin decade s = (None, s) \<and>
         handleRegenerateDecade generate decade s = Inr s"
  using assms
  by (simp add: handleRegenerateDecade_def handleRegenerateDecade_begin_def is_pending_def
      split: option.splits)

theorem retry_pending_noop_witness:
  "handleRegenerateDecade_begin ''1950s''
     ((uploaded_session ''photo'')\<lparr>generatedImages := set_pending ''1950s'' Map.empty\<rparr>)
     = (None, (uploaded_session ''photo'')\<lparr>generatedImages := set_pending ''1950s'' Map.empty\<rparr>) \<and>
   handleRegenerateDecade (\<lambda>i p. Resolved ''u'') ''1950s''
     ((uploaded_session ''photo'')\<lparr>generatedImages := set_pending ''1950s'' Map.empty\<rparr>)
     = Inr ((uploaded_session ''photo'')\<lparr>generatedImages := set_pending ''1950s'' Map.empty\<rparr>)"
  using retry_pending_noop
    [of "(uploaded_session ''photo'')\<lparr>generatedImages := set_pending ''1950s'' Map.empty\<rparr>"
        "''1950s''" "\<lparr>status = Pending, url = None, error = None\<rparr>" "\<lambda>i p. Resolved ''u''"]
  by (simp add: set_pending_def)

subsection \<open>The generation round\<close>

text \<open>
  C10. Every per-item update changes the entry of its own label and of no other: the
  three updaters handed to \<^verbatim>\<open>setGeneratedImages\<close>, the events of a round (a worker
  that resumes publishes nothing, a settled call publishes for the awaited label only),
  and both halves of the single-item retry.
\<close>

theorem updates_touch_one_label:
  assumes "l \<noteq> decade"
  shows "set_pending decade prev l = prev l \<and>
         set_done decade resultUrl prev l = prev l \<and>
         set_error decade msg prev l = prev l \<and>
         set_pending decade prev decade = Some \<lparr>status = Pending, url = None, error = None\<rparr> \<and>
         set_done decade resultUrl prev decade = Some \<lparr>status = Done, url = Some resultUrl, error = None\<rparr> \<and>
         set_error decade msg prev decade = Some \<lparr>status = Error, url = None, error = Some msg\<rparr> \<and>
         (step generate img (Resume i) s = Some s' \<longrightarrow> generatedImages s' = generatedImages s) \<and>
         (step generate img (Settle i) s = Some s' \<and> workers s ! i = Awaiting decade \<longrightarrow>
            generatedImages s' l = generatedImages s l \<and>
            generatedImages s' decade = Some (published (generate img (prompt_for decade)))) \<and>
         generatedImages (snd (handleRegenerateDecade_begin decade s)) l = generatedImages s l \<and>
         (\<exists>s''. handleRegenerateDecade_settled decade out s = Inr s'' \<and>
            generatedImages s'' l = generatedImages s l \<and>
            generatedImages s'' decade = Some (published out))"
proof -
  have upd: "set_pending decade prev l = prev l" "set_done decade resultUrl prev l = prev l"
    "set_error decade msg prev l = prev l"
    "set_pending decade prev decade = Some \<lparr>status = Pending, url = None, error = None\<rparr>"
    "set_done decade resultUrl prev decade = Some \<lparr>status = Done, url = Some resultUrl, error = None\<rparr>"
    "set_error decade msg prev decade = Some \<lparr>status = Error, url = None, error = Some msg\<rparr>"
    using assms by (simp_all add: set_pending_def set_done_def set_error_def)
  have res: "generatedImages s' = generatedImages s" if "step generate img (Resume i) s = Some s'"
  proof (cases "worker_loop (decadesQueue s)")
    case (Pair r rest)
    with that show ?thesis by (cases r) (auto simp: resume_def split: if_splits)
  qed
  have stl: "generatedImages s' l = generatedImages s l \<and>
      generatedImages s' decade = Some (published (generate img (prompt_for decade)))"
    if "step generate img (Settle i) s = Some s'" "workers s ! i = Awaiting decade"
    using that assms by (auto simp: settle_eq split: if_splits)
  have beg: "generatedImages (snd (handleRegenerateDecade_begin decade s)) l = generatedImages s l"
    using assms by (simp add: handleRegenerateDecade_begin_def set_pending_def split: option.splits)
  have fin: "\<exists>s''. handleRegenerateDecade_settled decade out s = Inr s'' \<and>
            generatedImages s'' l = generatedImages s l \<and>
            generatedImages s'' decade = Some (published out)"
    using assms by (simp add: handleRegenerateDecade_settled_def processDecade_settled_published)
  show ?thesis using upd res stl beg fin by blast
qed

theorem updates_touch_one_label_witness:
  "''1960s'' \<noteq> ''1950s'' \<and>
   set_pending ''1950s'' (initialImages DECADES) ''1960s'' = initialImages DECADES ''1960s'' \<and>
   set_done ''1950s'' ''u'' (initialImages DECADES) ''1960s'' = initialImages DECADES ''1960s'' \<and>
   set_error ''1950s'' ''quota'' (initialImages DECADES) ''1960s'' = initialImages DECADES ''1960s'' \<and>
   set_done ''1950s'' ''u'' (initialImages DECADES) ''1950s'' = Some \<lparr>status = Done, url = Some ''u'', error = None\<rparr>"
  using updates_touch_one_label[of "''1960s''" "''1950s''" "initialImages DECADES" "''u''" "''quota''"]
  by simp

text \<open>
  C1. The labels of a round are those of \<open>DECADES\<close>, all non-empty strings; the
  theorem is stated for every list of such labels (the guard \<^verbatim>\<open>if (decade)\<close> of the
  loop is there for the \<^verbatim>\<open>undefined\<close> that \<^verbatim>\<open>shift()\<close> gives on an empty
  queue). At every point of a round, whatever retries are started meanwhile, the calls of
  \<open>generate\<close> issued by the round's workers are among one call for each label; once
  the round has resolved (\<^verbatim>\<open>setAppState('results-shown')\<close> has run) there has been
  exactly one call for each label, as many calls as labels, none of them is unsettled, and
  for every label the round has published a done or an error state; when no retry ran in
  between, that state is the label's entry in the result map. The round does resolve:
  until it has, some event of the pool can happen, and no schedule has more than
  \<open>3 * length decades + concurrencyLimit + 1\<close> events of the pool.
\<close>

theorem round_calls_each_label_once:
  assumes "uploadedImage s0 = Some img" and "truthy img"
    and "\<forall>l \<in> set decades. truthy l"
    and "run generate img es (handleGenerateClick_begin decades s0) = Some s"
  shows "mset (pool_calls s) \<subseteq># mset (map (\<lambda>decade. (img, prompt_for decade)) decades) \<and>
         (appState s = ResultsShown \<longrightarrow>
            mset (pool_calls s) = mset (map (\<lambda>decade. (img, prompt_for decade)) decades) \<and>
            length (pool_calls s) = length decades \<and>
            inflight s = [] \<and>
            (\<forall>l \<in> set decades. \<exists>g. (l, g) \<in> set (reported s) \<and>
                (status g = Done \<or> status g = Error)) \<and>
            (list_all pool_event es \<longrightarrow>
               (\<forall>l \<in> set decades. \<exists>g. generatedImages s l = Some g \<and>
                   (status g = Done \<or> status g = Error)))) \<and>
         (appState s = ResultsShown \<or> (\<exists>e s'. pool_event e \<and> step generate img e s = Some s')) \<and>
         length (filter pool_event es) \<le> 3 * length decades + concurrencyLimit + 1"
proof -
  note R = reachable_facts[OF assms(1,2,4)]
  have all: "filter truthy decades = decades" using assms(3) by simp
  have cf: "call_of img = (\<lambda>decade. (img, prompt_for decade))" by (simp add: call_of_def fun_eq_iff)
  have ci: "mset (pool_calls s) + mset (map (\<lambda>decade. (img, prompt_for decade)) (filter truthy (decadesQueue s)))
      = mset (map (\<lambda>decade. (img, prompt_for decade)) decades)"
    using R(2) by (simp add: calls_inv_def all cf)
  have sub: "mset (pool_calls s) \<subseteq># mset (map (\<lambda>decade. (img, prompt_for decade)) decades)"
    using ci by (metis mset_subset_eq_add_left)
  have fin: "mset (pool_calls s) = mset (map (\<lambda>decade. (img, prompt_for decade)) decades) \<and>
            length (pool_calls s) = length decades \<and>
            inflight s = [] \<and>
            (\<forall>l \<in> set decades. \<exists>g. (l, g) \<in> set (reported s) \<and>
                (status g = Done \<or> status g = Error)) \<and>
            (list_all pool_event es \<longrightarrow>
               (\<forall>l \<in> set decades. \<exists>g. generatedImages s l = Some g \<and>
                   (status g = Done \<or> status g = Error)))" if res: "appState s = ResultsShown"
  proof -
    note F = resolved_facts[OF R(1) res]
    have eq: "mset (pool_calls s) = mset (map (\<lambda>decade. (img, prompt_for decade)) decades)"
      using ci F(1) by simp
    have len: "length (pool_calls s) = length decades"
      using arg_cong[OF eq, of size] by simp
    have rp: "\<exists>g. (l, g) \<in> set (reported s) \<and> (status g = Done \<or> status g = Error)"
      if "l \<in> set decades" for l
    proof -
      have "(l, published (generate img (prompt_for l))) \<in> set (reported s)"
        using R(3) that assms(3) F(1) F(2)[of l] by (auto simp: reported_inv_def)
      then show ?thesis using published_status by blast
    qed
    have st: "\<exists>g. generatedImages s l = Some g \<and> (status g = Done \<or> status g = Error)"
      if "l \<in> set decades" and po: "list_all pool_event es" for l
    proof -
      have "generatedImages s l = Some (published (generate img (prompt_for l)))"
        using R(7)[OF po] that(1) assms(3) F(1) F(2)[of l] by (auto simp: states_inv_def)
      then show ?thesis using published_status by blast
    qed
    show ?thesis using eq len F(3) rp st by blast
  qed
  show ?thesis using sub fin R(6) R(4) by blast
qed

theorem round_calls_each_label_once_witness:
  "(case run (\<lambda>i p. Resolved ''u'') ''photo'' full_round
          (handleGenerateClick_begin DECADES (uploaded_session ''photo'')) of
      None \<Rightarrow> False
    | Some s \<Rightarrow>
        appState s = ResultsShown \<and>
        pool_calls s = map (\<lambda>decade. (''photo'', prompt_for decade)) DECADES \<and>
        mset (pool_calls s) = mset (map (\<lambda>decade. (''photo'', prompt_for decade)) DECADES) \<and>
        length (pool_calls s) = length DECADES \<and>
        inflight s = [] \<and>
        (\<forall>l \<in> set DECADES. \<exists>g. (l, g) \<in> set (reported s) \<and> (status g = Done \<or> status g = Error)) \<and>
        (\<forall>l \<in> set DECADES.
            \<exists>g. generatedImages s l = Some g \<and> (status g = Done \<or> status g = Error)))"
proof -
  let ?r = "run (\<lambda>i p. Resolved ''u'') ''photo'' full_round
          (handleGenerateClick_begin DECADES (uploaded_session ''photo''))"
  have "?r \<noteq> None" by (simp add: round_eval full_round_def DECADES_def)
  then obtain s where s: "?r = Some s" by blast
  have fin: "appState s = ResultsShown"
    and cs: "pool_calls s = map (\<lambda>decade. (''photo'', prompt_for decade)) DECADES"
    using s by (auto simp: round_eval full_round_def DECADES_def)
  have po: "list_all pool_event full_round" by (simp add: full_round_def)
  have "uploadedImage (uploaded_session ''photo'') = Some ''photo''" "truthy ''photo''"
    "\<forall>l \<in> set DECADES. truthy l"
    by (simp_all add: uploaded_session_def truthy_def DECADES_def)
  from round_calls_each_label_once[OF this s] fin cs s po show ?thesis by simp
qed

text \<open>
  C2, amended. At every point of a generation round, that is in every state any schedule
  of worker resumptions, settlements and retries reaches from the start of the round, the
  calls of \<open>generate\<close> issued by the round's worker pool and not yet settled (the
  pool's calls issued less the pool's calls settled) number at most
  \<open>concurrencyLimit = 2\<close>, and no worker has more than one of them. The call of a
  single-item retry started meanwhile is outside this limit.
\<close>

theorem inflight_at_most_limit:
  assumes "uploadedImage s0 = Some img" and "truthy img"
    and "run generate img es (handleGenerateClick_begin decades s0) = Some s"
  shows "length (pool_calls s) = length (filter settled es) + length (inflight s) \<and>
         length (inflight s) \<le> concurrencyLimit \<and> concurrencyLimit = 2 \<and>
         (\<forall>i. length (filter (\<lambda>c. fst c = i) (inflight s)) \<le> 1)"
proof -
  note R = reachable_facts[OF assms]
  note D = pool_invD[OF R(1)]
  have "length (inflight s) \<le> concurrencyLimit"
    using distinct_fst_bound[OF D(2), of concurrencyLimit] D(3) D(1) by simp
  moreover have "length (filter (\<lambda>c. fst c = i) (inflight s)) \<le> 1" for i
    using distinct_fst_once[OF D(2)] .
  ultimately show ?thesis using R(5) by (simp add: concurrencyLimit_def)
qed

theorem inflight_at_most_limit_witness:
  "(case run (\<lambda>i p. Resolved ''u'') ''photo'' [Resume 0, Resume 1, Settle 0, Resume 0, Retry ''1950s'']
          (handleGenerateClick_begin DECADES (uploaded_session ''photo'')) of
      None \<Rightarrow> False
    | Some s \<Rightarrow>
        inflight s = [(1, ''1960s''), (0, ''1970s'')] \<and>
        length (pool_calls s) =
          length (filter settled [Resume 0, Resume 1, Settle 0, Resume 0, Retry ''1950s'']) +
          length (inflight s) \<and>
        length (inflight s) \<le> concurrencyLimit \<and> concurrencyLimit = 2 \<and>
        (\<forall>i. length (filter (\<lambda>c. fst c = i) (inflight s)) \<le> 1))"
proof -
  let ?r = "run (\<lambda>i p. Resolved ''u'') ''photo'' [Resume 0, Resume 1, Settle 0, Resume 0, Retry ''1950s'']
          (handleGenerateClick_begin DECADES (uploaded_session ''photo''))"
  have "?r \<noteq> None" by (simp add: round_eval retry_eval DECADES_def)
  then obtain s where s: "?r = Some s" by blast
  have inf: "inflight s = [(1, ''1960s''), (0, ''1970s'')]"
    using s by (auto simp: round_eval retry_eval DECADES_def)
  have "uploadedImage (uploaded_session ''photo'') = Some ''photo''" "truthy ''photo''"
    by (simp_all add: uploaded_session_def truthy_def)
  from inflight_at_most_limit[OF this s] inf s show ?thesis by simp
qed

text \<open>
  C2 as stated fails: \<open>handleRegenerateDecade\<close> looks neither at \<open>appState\<close> nor at
  the pool, only at the state of its own label. In the round over \<open>DECADES\<close>, once the
  call for 1950s has settled and both workers await their next calls, a retry of 1950s
  issues a third call: three calls of \<open>generate\<close> are unsettled while the round is
  still generating.
\<close>

theorem retry_adds_unsettled_call:
  "map_option (\<lambda>s. (appState s, inflight s, map fst (retrying s),
                      length (inflight s) + length (retrying s),
                      length (inflight s) + length (retrying s) \<le> concurrencyLimit))
     (run (\<lambda>i p. Resolved ''u'') ''photo'' [Resume 0, Resume 1, Settle 0, Resume 0, Retry ''1950s'']
        (handleGenerateClick_begin DECADES (uploaded_session ''photo'')))
   = Some (Generating, [(1, ''1960s''), (0, ''1970s'')], [''1950s''], 3, False)"
  by (simp add: round_eval retry_eval DECADES_def)

text \<open>
  C5, amended. For labels that are non-empty strings, as those of \<open>DECADES\<close> are, and
  every \<open>generate\<close> that rejects for each of them: no worker's promise is ever
  rejected, so the round never rejects; until the round has resolved some event of the
  pool can happen, and no schedule has more than
  \<open>3 * length decades + concurrencyLimit + 1\<close> events of the pool, so it resolves;
  every state the round publishes for a label is the error state, and once the round has
  resolved it has published one for every label (and, when no retry ran in between, that
  state is the label's entry in the result map). The message of the error state is the
  rejection's message when the rejected value is an \<^verbatim>\<open>Error\<close> instance, and the
  fixed text \<^verbatim>\<open>An unknown error occurred.\<close> when it is any other value.
\<close>

theorem rejections_become_error_states:
  assumes "uploadedImage s0 = Some img" and "truthy img"
    and "\<forall>l \<in> set decades. truthy l"
    and "\<forall>l \<in> set decades. generate img (prompt_for l) = Rejected (rej l)"
    and "run generate img es (handleGenerateClick_begin decades s0) = Some s"
  shows "\<not> round_rejected s \<and>
         (appState s = ResultsShown \<or> (\<exists>e s'. pool_event e \<and> step generate img e s = Some s')) \<and>
         length (filter pool_event es) \<le> 3 * length decades + concurrencyLimit + 1 \<and>
         (\<forall>r \<in> set (reported s). fst r \<in> set decades \<longrightarrow>
            snd r = \<lparr>status = Error, url = None, error = Some (errorMessage (rej (fst r)))\<rparr>) \<and>
         (appState s = ResultsShown \<longrightarrow>
            (\<forall>l \<in> set decades.
               (l, \<lparr>status = Error, url = None, error = Some (errorMessage (rej l))\<rparr>) \<in> set (reported s)) \<and>
            (list_all pool_event es \<longrightarrow>
               (\<forall>l \<in> set decades. generatedImages s l =
                   Some \<lparr>status = Error, url = None, error = Some (errorMessage (rej l))\<rparr>))) \<and>
         (\<forall>message. errorMessage (ErrorInstance message) = message) \<and>
         (\<forall>v. errorMessage (NonError v) = ''An unknown error occurred.'')"
proof -
  note R = reachable_facts[OF assms(1,2,5)]
  have nr: "\<not> round_rejected s" using R(1) by (simp add: pool_inv_def)
  have pub: "published (generate img (prompt_for l)) =
      \<lparr>status = Error, url = None, error = Some (errorMessage (rej l))\<rparr>" if "l \<in> set decades" for l
    using assms(4) that by (simp add: published_def)
  have ex: "snd r = \<lparr>status = Error, url = None, error = Some (errorMessage (rej (fst r)))\<rparr>"
    if "r \<in> set (reported s)" "fst r \<in> set decades" for r
    using R(8) that pub[of "fst r"] by (simp add: reported_exact_def)
  have fin1: "(l, \<lparr>status = Error, url = None, error = Some (errorMessage (rej l))\<rparr>) \<in> set (reported s)"
    if res: "appState s = ResultsShown" and l: "l \<in> set decades" for l
  proof -
    note F = resolved_facts[OF R(1) res]
    have "(l, published (generate img (prompt_for l))) \<in> set (reported s)"
      using R(3) l assms(3) F(1) F(2)[of l] by (auto simp: reported_inv_def)
    with pub[OF l] show ?thesis by simp
  qed
  have fin2: "generatedImages s l = Some \<lparr>status = Error, url = None, error = Some (errorMessage (rej l))\<rparr>"
    if res: "appState s = ResultsShown" and l: "l \<in> set decades" and po: "list_all pool_event es" for l
  proof -
    note F = resolved_facts[OF R(1) res]
    have "generatedImages s l = Some (published (generate img (prompt_for l)))"
      using R(7)[OF po] l assms(3) F(1) F(2)[of l] by (auto simp: states_inv_def)
    with pub[OF l] show ?thesis by simp
  qed
  have em: "\<forall>message. errorMessage (ErrorInstance message) = message"
    "\<forall>v. errorMessage (NonError v) = ''An unknown error occurred.''"
    by (simp_all add: errorMessage_def)
  show ?thesis using nr R(6) R(4) ex fin1 fin2 em by blast
qed

theorem rejections_become_error_states_witness:
  "(case run (\<lambda>i p. Rejected (ErrorInstance ''quota exceeded'')) ''photo'' full_round
          (handleGenerateClick_begin DECADES (uploaded_session ''photo'')) of
      None \<Rightarrow> False
    | Some s \<Rightarrow>
        appState s = ResultsShown \<and> \<not> round_rejected s \<and>
        (\<forall>l \<in> set DECADES.
            (l, \<lparr>status = Error, url = None, error = Some ''quota exceeded''\<rparr>) \<in> set (reported s)) \<and>
        (\<forall>l \<in> set DECADES.
            generatedImages s l = Some \<lparr>status = Error, url = None, error = Some ''quota exceeded''\<rparr>))"
proof -
  let ?g = "\<lambda>(i::string) (p::string). Rejected (ErrorInstance ''quota exceeded'')"
  let ?r = "run ?g ''photo'' full_round (handleGenerateClick_begin DECADES (uploaded_session ''photo''))"
  have "?r \<noteq> None" by (simp add: round_eval full_round_def DECADES_def)
  then obtain s where s: "?r = Some s" by blast
  have fin: "appState s = ResultsShown"
    using s by (auto simp: round_eval full_round_def DECADES_def)
  have po: "list_all pool_event full_round" by (simp add: full_round_def)
  have "uploadedImage (uploaded_session ''photo'') = Some ''photo''" "truthy ''photo''"
    "\<forall>l \<in> set DECADES. truthy l"
    "\<forall>l \<in> set DECADES.
       ?g ''photo'' (prompt_for l) = Rejected ((\<lambda>l. ErrorInstance ''quota exceeded'') l)"
    by (simp_all add: uploaded_session_def truthy_def DECADES_def)
  from rejections_become_error_states[OF this s] fin s po show ?thesis
    by (simp add: errorMessage_def)
qed

text \<open>
  C5 as stated fails for a \<open>generate\<close> that rejects with a value that is no
  \<^verbatim>\<open>Error\<close> instance: the catch block of \<open>processDecade\<close> tests
  \<^verbatim>\<open>err instanceof Error\<close> and otherwise publishes a fixed text. The round over
  \<open>DECADES\<close> with every call rejected with the string \<^verbatim>\<open>quota exceeded\<close>
  resolves with every label in the error state, and none of the six states carries what
  the call was rejected with.
\<close>

theorem non_error_rejection_loses_its_text:
  "map_option (\<lambda>s. (appState s, map (\<lambda>l. map_option error (generatedImages s l)) DECADES))
     (run (\<lambda>i p. Rejected (NonError ''quota exceeded'')) ''photo'' full_round
        (handleGenerateClick_begin DECADES (uploaded_session ''photo'')))
   = Some (ResultsShown,
           [Some (Some ''An unknown error occurred.''), Some (Some ''An unknown error occurred.''),
            Some (Some ''An unknown error occurred.''), Some (Some ''An unknown error occurred.''),
            Some (Some ''An unknown error occurred.''), Some (Some ''An unknown error occurred.'')])"
  by (simp add: round_eval full_round_def DECADES_def published_def errorMessage_def)

section \<open>Properties of the compositor\<close>

text \<open>
  C3, amended. When the browser gives a 2D context, every source decodes and the mapping
  has at most \<open>grid_cols * grid_rows = 6\<close> entries, \<open>createAlbumPage\<close> fulfils with
  one encoding: the canvas is encoded once, as \<open>image/jpeg\<close> at quality 0.92, and is
  2480 by 3508. What has been drawn on it is the page's head and then, for each entry in
  the order the mapping enumerates, the three marks of one cell (the white card, the
  image, the label) with exactly the geometry of \<open>polaroid_marks\<close>: the entry at
  position \<open>i\<close> is drawn in the frame centred on the grid cell of row
  \<open>i div grid_cols\<close> and column \<open>i mod grid_cols\<close>, turned by the rotation drawn
  for that cell. Every mark lies on the canvas.
\<close>

theorem album_page_layout:
  assumes "has_context env" and "\<forall>src \<in> set (map snd imageData). decodes env src"
    and "length imageData \<le> grid_cols * grid_rows"
    and "\<forall>n. 0 \<le> math_random env n \<and> math_random env n < 1"
  shows "\<exists>page. snd (createAlbumPage env imageData) = Inr page \<and>
           filter encodes (fst (createAlbumPage env imageData)) = [ToDataURL ''image/jpeg'' (92 / 100)] \<and>
           mime page = ''image/jpeg'' \<and> quality page = 92 / 100 \<and>
           width page = 2480 \<and> height page = 3508 \<and>
           render fresh_ctx [] (painted page) =
             page_marks @
             concat (map (\<lambda>(i, label, src).
                            polaroid_marks i (rotation (math_random env i)) label (Image src))
                       (enumerate 0 imageData)) \<and>
           list_all on_canvas (render fresh_ctx [] (painted page))"
proof -
  let ?cells = "map (\<lambda>p. (fst p, Image (snd p))) imageData"
  let ?page = "\<lparr>mime = ''image/jpeg'', quality = 92 / 100, width = canvasWidth, height = canvasHeight,
           painted = draw_background @ draw_title @ draw_polaroids env 0 ?cells\<rparr>"
  have ok: "createAlbumPage env imageData =
     (map Canvas draw_background @ [FontsLoad ''150px Poppins'', FontsLoad ''80px Inter''] @
      map Canvas draw_title @
      (map LoadStart (map snd imageData) @
       map (\<lambda>src. LoadEnd src True)
         (map (\<lambda>i. map snd imageData ! i) (arrival_order env (length imageData)))) @
      map Canvas (draw_polaroids env 0 ?cells) @
      [ToDataURL ''image/jpeg'' (92 / 100)], Inr ?page)"
    using createAlbumPage_ok[OF assms(1)] assms(2) by blast
  have enc: "filter encodes (fst (createAlbumPage env imageData)) = [ToDataURL ''image/jpeg'' (92 / 100)]"
    unfolding ok by (simp add: filter_empty_conv)
  have rn: "render fresh_ctx [] (painted ?page) =
             page_marks @
             concat (map (\<lambda>(i, label, src).
                            polaroid_marks i (rotation (math_random env i)) label (Image src))
                       (enumerate 0 imageData))"
    using render_album[of env imageData] by simp
  have cell: "list_all on_canvas (polaroid_marks i (rotation (math_random env i)) label (Image src))"
    if "(i, label, src) \<in> set (enumerate 0 imageData)" for i label src
  proof -
    from enumerate_index[OF that] assms(3) have "i < grid_cols * grid_rows" by simp
    moreover have "\<bar>rotation (math_random env i)\<bar> \<le> 35 / 1000"
      using assms(4) rotation_bound by blast
    ultimately show ?thesis by (rule polaroid_on_canvas)
  qed
  have fit: "list_all on_canvas (render fresh_ctx [] (painted ?page))"
    unfolding rn list_all_append
    using page_marks_on_canvas cell by (auto simp: list_all_iff)
  have "snd (createAlbumPage env imageData) = Inr ?page" unfolding ok by simp
  moreover have "mime ?page = ''image/jpeg''" "quality ?page = 92 / 100"
    "width ?page = 2480" "height ?page = 3508"
    by (simp_all add: canvasWidth_def canvasHeight_def)
  ultimately show ?thesis using enc rn fit by blast
qed

theorem album_page_layout_witness:
  "has_context demo_browser \<and>
   list_all (decodes demo_browser) (map snd [(''1950s'', ''imgA''), (''1980s'', ''imgB'')]) \<and>
   length [(''1950s'', ''imgA''), (''1980s'', ''imgB'')] \<le> grid_cols * grid_rows \<and>
   0 \<le> math_random demo_browser 0 \<and> math_random demo_browser 0 < 1 \<and>
   (case snd (createAlbumPage demo_browser [(''1950s'', ''imgA''), (''1980s'', ''imgB'')]) of
      Inl err \<Rightarrow> False
    | Inr page \<Rightarrow>
        mime page = ''image/jpeg'' \<and> quality page = 92 / 100 \<and>
        width page = 2480 \<and> height page = 3508 \<and>
        render fresh_ctx [] (painted page) =
          page_marks @
          [FilledRect \<lparr>origin_x = 645, origin_y = 2854 / 3, angle = - (7 / 400)\<rparr> ''#FFFFFF''
             \<lparr>colour = ''rgba(40, 50, 70, 0.15)'', blur = 60, offset_x = 0, offset_y = 15\<rparr>
             (- 436) (- (2616 / 5)) 872 (5232 / 5),
           DrawnImage \<lparr>origin_x = 645, origin_y = 2854 / 3, angle = - (7 / 400)\<rparr>
             \<lparr>colour = ''transparent'', blur = 60, offset_x = 0, offset_y = 15\<rparr>
             (Image ''imgA'') (- (1962 / 5)) (- (2398 / 5)) (3924 / 5) (3924 / 5),
           WrittenText \<lparr>origin_x = 645, origin_y = 2854 / 3, angle = - (7 / 400)\<rparr> ''#1e293b''
             caption_font ''center''
             \<lparr>colour = ''transparent'', blur = 60, offset_x = 0, offset_y = 15\<rparr>
             ''1950s'' 0 (913 / 5),
           FilledRect \<lparr>origin_x = 1835, origin_y = 2854 / 3, angle = - (7 / 400)\<rparr> ''#FFFFFF''
             \<lparr>colour = ''rgba(40, 50, 70, 0.15)'', blur = 60, offset_x = 0, offset_y = 15\<rparr>
             (- 436) (- (2616 / 5)) 872 (5232 / 5),
           DrawnImage \<lparr>origin_x = 1835, origin_y = 2854 / 3, angle = - (7 / 400)\<rparr>
             \<lparr>colour = ''transparent'', blur = 60, offset_x = 0, offset_y = 15\<rparr>
             (Image ''imgB'') (- (1962 / 5)) (- (2398 / 5)) (3924 / 5) (3924 / 5),
           WrittenText \<lparr>origin_x = 1835, origin_y = 2854 / 3, angle = - (7 / 400)\<rparr> ''#1e293b''
             caption_font ''center''
             \<lparr>colour = ''transparent'', blur = 60, offset_x = 0, offset_y = 15\<rparr>
             ''1980s'' 0 (913 / 5)] \<and>
        list_all on_canvas (render fresh_ctx [] (painted page)))"
proof -
  have h: "has_context demo_browser"
    "\<forall>src \<in> set (map snd [(''1950s'', ''imgA''), (''1980s'', ''imgB'')]). decodes demo_browser src"
    "length [(''1950s'', ''imgA''), (''1980s'', ''imgB'')] \<le> grid_cols * grid_rows"
    "\<forall>n. 0 \<le> math_random demo_browser n \<and> math_random demo_browser n < 1"
    by (simp_all add: demo_browser_def grid_cols_def grid_rows_def)
  from album_page_layout[OF h] obtain page where
    p: "snd (createAlbumPage demo_browser [(''1950s'', ''imgA''), (''1980s'', ''imgB'')]) = Inr page"
      "mime page = ''image/jpeg''" "quality page = 92 / 100" "width page = 2480" "height page = 3508"
      "render fresh_ctx [] (painted page) =
         page_marks @
         concat (map (\<lambda>(i, label, src).
                        polaroid_marks i (rotation (math_random demo_browser i)) label (Image src))
                   (enumerate 0 [(''1950s'', ''imgA''), (''1980s'', ''imgB'')]))"
      "list_all on_canvas (render fresh_ctx [] (painted page))"
    by blast
  have r: "rotation (1 / 4) = - (7 / 400)" by (simp add: rotation_def)
  have m: "concat (map (\<lambda>(i, label, src).
                        polaroid_marks i (rotation (math_random demo_browser i)) label (Image src))
                   (enumerate 0 [(''1950s'', ''imgA''), (''1980s'', ''imgB'')])) =
          [FilledRect \<lparr>origin_x = 645, origin_y = 2854 / 3, angle = - (7 / 400)\<rparr> ''#FFFFFF''
             \<lparr>colour = ''rgba(40, 50, 70, 0.15)'', blur = 60, offset_x = 0, offset_y = 15\<rparr>
             (- 436) (- (2616 / 5)) 872 (5232 / 5),
           DrawnImage \<lparr>origin_x = 645, origin_y = 2854 / 3, angle = - (7 / 400)\<rparr>
             \<lparr>colour = ''transparent'', blur = 60, offset_x = 0, offset_y = 15\<rparr>
             (Image ''imgA'') (- (1962 / 5)) (- (2398 / 5)) (3924 / 5) (3924 / 5),
           WrittenText \<lparr>origin_x = 645, origin_y = 2854 / 3, angle = - (7 / 400)\<rparr> ''#1e293b''
             caption_font ''center''
             \<lparr>colour = ''transparent'', blur = 60, offset_x = 0, offset_y = 15\<rparr>
             ''1950s'' 0 (913 / 5),
           FilledRect \<lparr>origin_x = 1835, origin_y = 2854 / 3, angle = - (7 / 400)\<rparr> ''#FFFFFF''
             \<lparr>colour = ''rgba(40, 50, 70, 0.15)'', blur = 60, offset_x = 0, offset_y = 15\<rparr>
             (- 436) (- (2616 / 5)) 872 (5232 / 5),
           DrawnImage \<lparr>origin_x = 1835, origin_y = 2854 / 3, angle = - (7 / 400)\<rparr>
             \<lparr>colour = ''transparent'', blur = 60, offset_x = 0, offset_y = 15\<rparr>
             (Image ''imgB'') (- (1962 / 5)) (- (2398 / 5)) (3924 / 5) (3924 / 5),
           WrittenText \<lparr>origin_x = 1835, origin_y = 2854 / 3, angle = - (7 / 400)\<rparr> ''#1e293b''
             caption_font ''center''
             \<lparr>colour = ''transparent'', blur = 60, offset_x = 0, offset_y = 15\<rparr>
             ''1980s'' 0 (913 / 5)]"
    by (simp add: polaroid_marks_def Let_def demo_browser_def r cell_centre_val grid_cols_def)
  show ?thesis using h(1,3) p(1-5,7) p(6)[unfolded m] by (simp add: demo_browser_def)
qed

text \<open>
  C3 as stated fails for a mapping of more than six entries: the grid has two columns
  and the canvas has room for three rows, and \<open>createAlbumPage\<close> neither scales nor
  refuses a longer mapping. For nine entries the page is encoded at 2480 by 3508 with
  all 27 marks of nine cells made, but the marks of the cells at positions 6, 7 and 8
  are not on the canvas, and the three marks of the ninth cell, centred at height 4962,
  lie wholly below its lower edge at 3508: the encoded image holds nothing of that cell.
\<close>

theorem ninth_polaroid_below_canvas:
  "has_context level_browser \<and>
   list_all (decodes level_browser) (map snd nine_decades) \<and>
   length nine_decades = 9 \<and>
   (case snd (createAlbumPage level_browser nine_decades) of
      Inl err \<Rightarrow> False
    | Inr page \<Rightarrow>
        width page = 2480 \<and> height page = 3508 \<and>
        length (render fresh_ctx [] (painted page)) = 2 + 3 * 9 \<and>
        map on_canvas (render fresh_ctx [] (painted page)) =
          replicate 20 True @ replicate 9 False \<and>
        map below_canvas (drop 26 (render fresh_ctx [] (painted page))) = [True, True, True])"
proof -
  from level_album obtain page where
    p: "snd (createAlbumPage level_browser nine_decades) = Inr page"
      "width page = 2480" "height page = 3508"
      "render fresh_ctx [] (painted page) =
       page_marks @
       concat (map (\<lambda>(i, label, src). polaroid_marks i 0 label (Image src))
                 (enumerate 0 nine_decades))"
    by blast
  have on: "map on_canvas (render fresh_ctx [] (painted page)) = replicate 20 True @ replicate 9 False"
    unfolding p(4) by (rule nine_marks(1))
  have below: "map below_canvas (render fresh_ctx [] (painted page)) =
     replicate 20 False @ [False, False, True, False, False, True, True, True, True]"
    unfolding p(4) by (rule nine_marks(2))
  have len: "length (render fresh_ctx [] (painted page)) = 29"
    using arg_cong[OF on, of length] by simp
  have last: "map below_canvas (drop 26 (render fresh_ctx [] (painted page))) = [True, True, True]"
    using arg_cong[OF below, of "drop 26"] by (simp add: drop_map)
  have "has_context level_browser" "list_all (decodes level_browser) (map snd nine_decades)"
    "length nine_decades = 9"
    by (simp_all add: level_browser_def nine_decades_def)
  then show ?thesis using p(1-3) on len last by simp
qed

text \<open>
  C4, amended. Every effect of \<open>createAlbumPage\<close> after the title is either part of
  the image loading or comes after all of it: the effects are the background and the
  title, then the load events, then the rest (the polaroids and the encoding), and the
  rest is empty exactly when the promise rejects; when it is not empty, every source has
  finished loading before it. The background fill and the title text come before the
  first load is started.
\<close>

theorem polaroids_drawn_after_loads:
  assumes "has_context env"
  shows "\<exists>loading rest.
           fst (createAlbumPage env imageData) =
             (map Canvas draw_background @ [FontsLoad ''150px Poppins'', FontsLoad ''80px Inter''] @
              map Canvas draw_title) @ loading @ rest \<and>
           list_all is_load loading \<and>
           list_all (\<lambda>e. \<not> is_load e) rest \<and>
           (rest = [] \<longleftrightarrow> isl (snd (createAlbumPage env imageData))) \<and>
           (rest \<noteq> [] \<longrightarrow> (\<forall>src \<in> set (map snd imageData). LoadEnd src True \<in> set loading))"
proof (cases "\<forall>src \<in> set (map snd imageData). decodes env src")
  case True
  let ?arrived = "map (\<lambda>i. map snd imageData ! i) (arrival_order env (length imageData))"
  let ?loading = "map LoadStart (map snd imageData) @ map (\<lambda>src. LoadEnd src True) ?arrived"
  let ?rest = "map Canvas (draw_polaroids env 0 (map (\<lambda>p. (fst p, Image (snd p))) imageData)) @
      [ToDataURL ''image/jpeg'' (92 / 100)]"
  have ok: "createAlbumPage env imageData =
     (map Canvas draw_background @ [FontsLoad ''150px Poppins'', FontsLoad ''80px Inter''] @
      map Canvas draw_title @ ?loading @ ?rest,
      Inr \<lparr>mime = ''image/jpeg'', quality = 92 / 100, width = canvasWidth, height = canvasHeight,
           painted = draw_background @ draw_title @
             draw_polaroids env 0 (map (\<lambda>p. (fst p, Image (snd p))) imageData)\<rparr>)"
    using createAlbumPage_ok[OF assms] True by blast
  have arr: "set ?arrived = set (map snd imageData)"
    using arrivals_set[of "map snd imageData" env] by simp
  have 1: "list_all is_load ?loading" by (auto simp: list_all_iff)
  have 2: "list_all (\<lambda>e. \<not> is_load e) ?rest" using polaroids_no_load by simp
  have 3: "\<forall>src \<in> set (map snd imageData). LoadEnd src True \<in> set ?loading"
    using arr by auto
  have 4: "fst (createAlbumPage env imageData) =
             (map Canvas draw_background @ [FontsLoad ''150px Poppins'', FontsLoad ''80px Inter''] @
              map Canvas draw_title) @ ?loading @ ?rest" unfolding ok by simp
  have 5: "?rest = [] \<longleftrightarrow> isl (snd (createAlbumPage env imageData))" unfolding ok by simp
  show ?thesis using 1 2 3 4 5 by blast
next
  case False
  then obtain bad where "bad \<in> set (map snd imageData)" "\<not> decodes env bad" by blast
  from createAlbumPage_failed[OF assms this] obtain src where
    f: "createAlbumPage env imageData =
     (map Canvas draw_background @ [FontsLoad ''150px Poppins'', FontsLoad ''80px Inter''] @
      map Canvas draw_title @
      (map LoadStart (map snd imageData) @
       load_ends env (map (\<lambda>i. map snd imageData ! i) (arrival_order env (length imageData)))),
      Inl (load_failure src))" by blast
  let ?loading = "map LoadStart (map snd imageData) @
       load_ends env (map (\<lambda>i. map snd imageData ! i) (arrival_order env (length imageData)))"
  have 1: "list_all is_load ?loading"
    unfolding list_all_append using load_starts_is_load load_ends_is_load by blast
  have 4: "fst (createAlbumPage env imageData) =
             (map Canvas draw_background @ [FontsLoad ''150px Poppins'', FontsLoad ''80px Inter''] @
              map Canvas draw_title) @ ?loading @ []" unfolding f by simp
  have 5: "isl (snd (createAlbumPage env imageData))" unfolding f by simp
  show ?thesis using 1 4 5 by (intro exI[of _ ?loading] exI[of _ "[]"]) simp
qed

theorem polaroids_drawn_after_loads_witness:
  "has_context demo_browser \<and>
   fst (createAlbumPage demo_browser [(''1950s'', ''imgA''), (''1980s'', ''imgB'')]) =
     (map Canvas draw_background @ [FontsLoad ''150px Poppins'', FontsLoad ''80px Inter''] @
      map Canvas draw_title) @
     [LoadStart ''imgA'', LoadStart ''imgB'', LoadEnd ''imgB'' True, LoadEnd ''imgA'' True] @
     (map Canvas (draw_polaroid (1 / 4) 0 ''1950s'' (Image ''imgA'') @
                  draw_polaroid (1 / 4) 1 ''1980s'' (Image ''imgB'')) @
      [ToDataURL ''image/jpeg'' (92 / 100)]) \<and>
   (\<exists>loading rest.
      fst (createAlbumPage demo_browser [(''1950s'', ''imgA''), (''1980s'', ''imgB'')]) =
        (map Canvas draw_background @ [FontsLoad ''150px Poppins'', FontsLoad ''80px Inter''] @
         map Canvas draw_title) @ loading @ rest \<and>
      list_all is_load loading \<and>
      list_all (\<lambda>e. \<not> is_load e) rest \<and>
      rest \<noteq> [] \<and>
      LoadEnd ''imgA'' True \<in> set loading \<and> LoadEnd ''imgB'' True \<in> set loading)"
proof -
  have h: "has_context demo_browser" by (simp add: demo_browser_def)
  have ok: "\<not> isl (snd (createAlbumPage demo_browser [(''1950s'', ''imgA''), (''1980s'', ''imgB'')]))"
    by (simp add: createAlbumPage_def Let_def demo_browser_def promise_all_def loadImage_def
        arrival_order_def numeral_2_eq_2)
  have tr: "fst (createAlbumPage demo_browser [(''1950s'', ''imgA''), (''1980s'', ''imgB'')]) =
     (map Canvas draw_background @ [FontsLoad ''150px Poppins'', FontsLoad ''80px Inter''] @
      map Canvas draw_title) @
     [LoadStart ''imgA'', LoadStart ''imgB'', LoadEnd ''imgB'' True, LoadEnd ''imgA'' True] @
     (map Canvas (draw_polaroid (1 / 4) 0 ''1950s'' (Image ''imgA'') @
                  draw_polaroid (1 / 4) 1 ''1980s'' (Image ''imgB'')) @
      [ToDataURL ''image/jpeg'' (92 / 100)])"
    by (simp add: createAlbumPage_def Let_def demo_browser_def promise_all_def loadImage_def
        arrival_order_def numeral_2_eq_2)
  from polaroids_drawn_after_loads[OF h, of "[(''1950s'', ''imgA''), (''1980s'', ''imgB'')]"] ok
  have "\<exists>loading rest.
      fst (createAlbumPage demo_browser [(''1950s'', ''imgA''), (''1980s'', ''imgB'')]) =
        (map Canvas draw_background @ [FontsLoad ''150px Poppins'', FontsLoad ''80px Inter''] @
         map Canvas draw_title) @ loading @ rest \<and>
      list_all is_load loading \<and>
      list_all (\<lambda>e. \<not> is_load e) rest \<and>
      rest \<noteq> [] \<and>
      LoadEnd ''imgA'' True \<in> set loading \<and> LoadEnd ''imgB'' True \<in> set loading"
    by (elim exE conjE, intro exI conjI) (assumption | simp)+
  with h tr show ?thesis by blast
qed

text \<open>
  C4 as stated fails: the background is filled and the title written (steps 1 and 2 of
  the source) before the loads of step 3 are issued, so load events follow operations
  that paint.
\<close>

theorem background_painted_before_loads:
  "\<not> loads_before_painting
       (fst (createAlbumPage
          \<lparr>has_context = True, decodes = (\<lambda>src. True), settles_at = (\<lambda>i. i), math_random = (\<lambda>n. 1 / 2)\<rparr>
          [(''1950s'', ''imgA'')]))"
  by (simp add: createAlbumPage_def Let_def promise_all_def loadImage_def arrival_order_def
      draw_background_def draw_title_def)

text \<open>
  C7. When the browser gives a 2D context and some source fails to decode, the whole
  call rejects, with an \<^verbatim>\<open>Error\<close> whose message is \<open>Failed to load image: \<close>
  followed by the first 50 characters of a source that failed and three dots; the canvas
  is never encoded, and nothing but the background and the title has been painted.
\<close>

theorem load_failure_is_fatal:
  assumes "has_context env" and "\<exists>src \<in> set (map snd imageData). \<not> decodes env src"
  shows "\<exists>src \<in> set (map snd imageData).
           \<not> decodes env src \<and>
           snd (createAlbumPage env imageData) =
             Inl (JsError (''Failed to load image: '' @ take 50 src @ ''...'')) \<and>
           filter encodes (fst (createAlbumPage env imageData)) = [] \<and>
           filter paints (fst (createAlbumPage env imageData)) =
             [Canvas (FillRect 0 0 (real canvasWidth) (real canvasHeight)),
              Canvas (FillText ''Past Forward'' (real canvasWidth / 2) 250)]"
proof -
  from assms(2) obtain bad where "bad \<in> set (map snd imageData)" "\<not> decodes env bad" by blast
  from createAlbumPage_failed[OF assms(1) this] obtain src where
    src: "src \<in> set (map snd imageData)" "\<not> decodes env src" and
    f: "createAlbumPage env imageData =
     (map Canvas draw_background @ [FontsLoad ''150px Poppins'', FontsLoad ''80px Inter''] @
      map Canvas draw_title @
      (map LoadStart (map snd imageData) @
       load_ends env (map (\<lambda>i. map snd imageData ! i) (arrival_order env (length imageData)))),
      Inl (load_failure src))" by blast
  have le: "filter encodes (load_ends env xs) = [] \<and> filter paints (load_ends env xs) = []" for xs
    by (induction xs) simp_all
  have ls: "filter encodes (map LoadStart xs) = [] \<and> filter paints (map LoadStart xs) = []" for xs
    by (induction xs) simp_all
  have 1: "snd (createAlbumPage env imageData) =
             Inl (JsError (''Failed to load image: '' @ take 50 src @ ''...''))"
    unfolding f by (simp add: load_failure_def)
  have 2: "filter encodes (fst (createAlbumPage env imageData)) = []"
    unfolding f fst_conv filter_append using le ls
    by (simp add: draw_background_def draw_title_def)
  have 3: "filter paints (fst (createAlbumPage env imageData)) =
             [Canvas (FillRect 0 0 (real canvasWidth) (real canvasHeight)),
              Canvas (FillText ''Past Forward'' (real canvasWidth / 2) 250)]"
    unfolding f fst_conv filter_append using le ls
    by (simp add: draw_background_def draw_title_def)
  show ?thesis using src 1 2 3 by blast
qed

theorem load_failure_is_fatal_witness:
  "has_context demo_browser \<and>
   \<not> decodes demo_browser ''broken-data-uri-0123456789-0123456789-0123456789-0123456789-0123456789'' \<and>
   snd (createAlbumPage demo_browser [(''1950s'', ''imgA''), (''1980s'', ''broken-data-uri-0123456789-0123456789-0123456789-0123456789-0123456789'')]) =
     Inl (JsError ''Failed to load image: broken-data-uri-0123456789-0123456789-0123456789-0...'') \<and>
   (\<exists>src. \<not> decodes demo_browser src \<and>
      snd (createAlbumPage demo_browser [(''1950s'', ''imgA''), (''1980s'', ''broken-data-uri-0123456789-0123456789-0123456789-0123456789-0123456789'')]) =
        Inl (JsError (''Failed to load image: '' @ take 50 src @ ''...'')))"
proof -
  have h: "has_context demo_browser"
    "\<exists>src \<in> set (map snd [(''1950s'', ''imgA''), (''1980s'', ''broken-data-uri-0123456789-0123456789-0123456789-0123456789-0123456789'')]). \<not> decodes demo_browser src"
    by (simp_all add: demo_browser_def)
  have r: "snd (createAlbumPage demo_browser [(''1950s'', ''imgA''), (''1980s'', ''broken-data-uri-0123456789-0123456789-0123456789-0123456789-0123456789'')]) =
     Inl (JsError ''Failed to load image: broken-data-uri-0123456789-0123456789-0123456789-0...'')"
    by (simp add: createAlbumPage_def Let_def demo_browser_def promise_all_def loadImage_def
        arrival_order_def numeral_2_eq_2 load_failure_def)
  from load_failure_is_fatal[OF h]
  have "\<exists>src. \<not> decodes demo_browser src \<and>
      snd (createAlbumPage demo_browser [(''1950s'', ''imgA''), (''1980s'', ''broken-data-uri-0123456789-0123456789-0123456789-0123456789-0123456789'')]) =
        Inl (JsError (''Failed to load image: '' @ take 50 src @ ''...''))"
    by blast
  with h(1) r show ?thesis by (simp add: demo_browser_def)
qed

text \<open>
  C8. Given the empty mapping, \<open>createAlbumPage\<close> does exactly one of two things,
  according to the browser: with a 2D context it fulfils with the encoding of a page
  that holds the background and the title and no drawn image; without one it rejects.
\<close>

theorem empty_mapping_background_only:
  "createAlbumPage env [] =
     (if has_context env
      then (map Canvas draw_background @ [FontsLoad ''150px Poppins'', FontsLoad ''80px Inter''] @
            map Canvas draw_title @ [ToDataURL ''image/jpeg'' (92 / 100)],
            Inr \<lparr>mime = ''image/jpeg'', quality = 92 / 100, width = canvasWidth,
                 height = canvasHeight, painted = draw_background @ draw_title\<rparr>)
      else ([], Inl (JsError ''Could not get 2D canvas context''))) \<and>
   placed_images page_frame [] (draw_background @ draw_title) = [] \<and>
   written_texts (draw_background @ draw_title) = [''Past Forward'']"
  by (simp add: createAlbumPage_def Let_def promise_all_def arrival_order_def
      draw_background_def draw_title_def)

theorem empty_mapping_background_only_witness:
  "snd (createAlbumPage demo_browser []) =
     Inr \<lparr>mime = ''image/jpeg'', quality = 92 / 100, width = canvasWidth,
          height = canvasHeight, painted = draw_background @ draw_title\<rparr> \<and>
   snd (createAlbumPage (demo_browser\<lparr>has_context := False\<rparr>) []) =
     Inl (JsError ''Could not get 2D canvas context'')"
  using empty_mapping_background_only[of demo_browser]
    empty_mapping_background_only[of "demo_browser\<lparr>has_context := False\<rparr>"]
  by (simp add: demo_browser_def)

text \<open>
  C9. For every value in \<open>[0, 1)\<close> of the random source the rotation has absolute
  value at most 0.035, and so has every rotation \<open>createAlbumPage\<close> applies, whatever
  the mapping. Numbers are reals here.
\<close>

theorem rotation_within_two_degrees:
  assumes "\<forall>n. 0 \<le> math_random env n \<and> math_random env n < 1"
  shows "(\<forall>r. 0 \<le> r \<and> r < 1 \<longrightarrow> \<bar>rotation r\<bar> \<le> 35 / 1000) \<and>
         (\<forall>a. Canvas (Rotate a) \<in> set (fst (createAlbumPage env imageData)) \<longrightarrow> \<bar>a\<bar> \<le> 35 / 1000)"
proof -
  have pt: "\<bar>rotation r\<bar> \<le> 35 / 1000" if "0 \<le> r \<and> r < 1" for r
    using that rotation_bound by blast
  have cells: "\<bar>a\<bar> \<le> 35 / 1000" if "Rotate a \<in> set (draw_polaroids env k xs)" for a k xs
  proof -
    from rotations_polaroids[OF that] obtain n where "a = rotation (math_random env n)" by blast
    with assms pt show ?thesis by blast
  qed
  have le: "Canvas (Rotate a) \<notin> set (load_ends env xs)" for a xs
    by (induction xs) simp_all
  have tr: "\<bar>a\<bar> \<le> 35 / 1000" if "Canvas (Rotate a) \<in> set (fst (createAlbumPage env imageData))" for a
  proof -
    from that have "\<exists>k xs. Rotate a \<in> set (draw_polaroids env k xs)"
      using le by (auto simp: createAlbumPage_def Let_def draw_background_def draw_title_def
          split: if_splits sum.splits)
    with cells show ?thesis by blast
  qed
  show ?thesis using pt tr by blast
qed

theorem rotation_within_two_degrees_witness:
  "(\<forall>n. 0 \<le> math_random demo_browser n \<and> math_random demo_browser n < 1) \<and>
   \<bar>rotation (math_random demo_browser 0)\<bar> \<le> 35 / 1000 \<and>
   rotation 0 = - (35 / 1000) \<and>
   Canvas (Rotate (- (7 / 400))) \<in> set (fst (createAlbumPage demo_browser [(''1950s'', ''imgA'')])) \<and>
   \<bar>- (7 / 400) :: real\<bar> \<le> 35 / 1000"
proof -
  have h: "\<forall>n. 0 \<le> math_random demo_browser n \<and> math_random demo_browser n < 1"
    by (simp add: demo_browser_def)
  have m: "Canvas (Rotate (- (7 / 400))) \<in> set (fst (createAlbumPage demo_browser [(''1950s'', ''imgA'')]))"
    by (simp add: createAlbumPage_def Let_def demo_browser_def promise_all_def loadImage_def
        arrival_order_def draw_polaroid_def rotation_def)
  from rotation_within_two_degrees[OF h, of "[(''1950s'', ''imgA'')]"] m h
  show ?thesis by (simp add: rotation_def)
qed

end
